theory Spec2Isabelle
  imports Complex_Main
begin

section \<open>Tree structure: leaf positions (tree-animation.tsx, generateLeafPositions)\<close>

text \<open>
  Coordinates, lengths and angles are JavaScript numbers; they are modelled as real
  numbers. None of the properties below depends on the value of a coordinate.
\<close>

record Position =
  x :: real
  y :: real

text \<open>
  \<^verbatim>\<open>generateLeafPositions(x, y, len, angle, depth, positions)\<close> appends to the array
  \<^verbatim>\<open>positions\<close>; the model takes the array and returns it extended. The \<^verbatim>\<open>for\<close> loop over
  \<^verbatim>\<open>i = 0 .. branchCount - 1\<close> is a fold over \<open>[0..<branchCount]\<close> that threads the array.
  The depth is an integer (the only call passes 6).
\<close>

function generateLeafPositions ::
  "real \<Rightarrow> real \<Rightarrow> real \<Rightarrow> real \<Rightarrow> int \<Rightarrow> Position list \<Rightarrow> Position list" where
  "generateLeafPositions x0 y0 len angle depth positions =
     (if depth \<le> 1 then positions @ [\<lparr>x = x0, y = y0\<rparr>]
      else
        let branchCount = (if depth > 4 then 3 else 2 :: nat);
            angleStep = pi / 3;
            startAngle = angle - (angleStep * (real branchCount - 1)) / 2
        in fold (\<lambda>i positions.
              let newAngle = startAngle + angleStep * real i;
                  endX = x0 + len * cos newAngle;
                  endY = y0 + len * sin newAngle;
                  newLen = len * 0.65
              in generateLeafPositions endX endY newLen newAngle (depth - 1)
                   (positions @ [\<lparr>x = endX, y = endY\<rparr>]))
            [0..<branchCount] positions)"
  by pat_completeness auto
termination
  by (relation "measure (\<lambda>(x0, y0, len, angle, depth, positions). nat depth)") auto

declare generateLeafPositions.simps [simp del]

text \<open>
  The same recursion as the specification words it: a slot is recorded only where the
  recursion ends (remaining depth at most 1). It differs from the source in one place: the
  source also pushes each branch endpoint before it recurses.
\<close>

function terminalEndpoints ::
  "real \<Rightarrow> real \<Rightarrow> real \<Rightarrow> real \<Rightarrow> int \<Rightarrow> Position list \<Rightarrow> Position list" where
  "terminalEndpoints x0 y0 len angle depth positions =
     (if depth \<le> 1 then positions @ [\<lparr>x = x0, y = y0\<rparr>]
      else
        let branchCount = (if depth > 4 then 3 else 2 :: nat);
            angleStep = pi / 3;
            startAngle = angle - (angleStep * (real branchCount - 1)) / 2
        in fold (\<lambda>i positions.
              let newAngle = startAngle + angleStep * real i;
                  endX = x0 + len * cos newAngle;
                  endY = y0 + len * sin newAngle;
                  newLen = len * 0.65
              in terminalEndpoints endX endY newLen newAngle (depth - 1) positions)
            [0..<branchCount] positions)"
  by pat_completeness auto
termination
  by (relation "measure (\<lambda>(x0, y0, len, angle, depth, positions). nat depth)") auto

declare terminalEndpoints.simps [simp del]

text \<open>What one branch of the loop contributes: its endpoint, then the slots of its subtree.\<close>

definition branchSlots :: "real \<Rightarrow> real \<Rightarrow> real \<Rightarrow> real \<Rightarrow> int \<Rightarrow> nat \<Rightarrow> Position list" where
  "branchSlots x0 y0 len angle depth i =
     (let branchCount = (if depth > 4 then 3 else 2 :: nat);
          angleStep = pi / 3;
          startAngle = angle - (angleStep * (real branchCount - 1)) / 2;
          newAngle = startAngle + angleStep * real i;
          endX = x0 + len * cos newAngle;
          endY = y0 + len * sin newAngle;
          newLen = len * 0.65
      in \<lparr>x = endX, y = endY\<rparr> # generateLeafPositions endX endY newLen newAngle (depth - 1) [])"

text \<open>The number of slots one call records, as a function of the depth alone.\<close>

function slotCount :: "int \<Rightarrow> nat" where
  "slotCount depth =
     (if depth \<le> 1 then 1 else (if depth > 4 then 3 else 2) * (1 + slotCount (depth - 1)))"
  by pat_completeness auto
termination
  by (relation "measure nat") auto

declare slotCount.simps [simp del]

text \<open>The number of points at which the recursion ends.\<close>

function terminalCount :: "int \<Rightarrow> nat" where
  "terminalCount depth =
     (if depth \<le> 1 then 1 else (if depth > 4 then 3 else 2) * terminalCount (depth - 1))"
  by pat_completeness auto
termination
  by (relation "measure nat") auto

declare terminalCount.simps [simp del]


section \<open>Animation engine: leaves, birds, the frame loop (tree-animation.tsx)\<close>

datatype error = TypeError

record Leaf = Position +
  leaf_size :: real
  color :: "nat list"
  colorName :: string
  isUsed :: bool

record Bird =
  bird_x :: real
  bird_y :: real
  bird_color :: "nat list"
  speed :: real
  angle :: real
  bird_size :: real
  wingAngle :: real
  wingSpeed :: real

text \<open>
  The variables of the effect's closure (\<^verbatim>\<open>leaves\<close>, \<^verbatim>\<open>birds\<close>, \<^verbatim>\<open>flightInterval\<close>), the loop
  flag of the p5 instance (\<^verbatim>\<open>isLooping\<close>), and the two pieces of the host the code talks to:
  the table of registered interval timers (handle, arguments of the callback's \<^verbatim>\<open>fly\<close> call,
  period in milliseconds) with the next fresh handle, and the number of draws taken from \<^verbatim>\<open>p.random\<close> so far.
  A colour argument is \<open>None\<close> for \<^verbatim>\<open>null\<close>/\<^verbatim>\<open>undefined\<close>.
\<close>

record sketch =
  leaves :: "Leaf list"
  birds :: "Bird list"
  flightInterval :: "nat option"
  looping :: bool
  intervals :: "(nat \<times> (string option \<times> int) \<times> nat) list"
  nextTimer :: nat
  rpos :: nat

text \<open>
  \<^verbatim>\<open>p.random(lo, hi)\<close>: the \<open>k\<close>-th draw \<open>rnd k\<close> of the generator scaled to the interval
  (p5 swaps the bounds when the first is the larger); \<^verbatim>\<open>p.random(hi)\<close> is \<open>p_random rnd k 0 hi\<close>.
  p5 promises \<open>0 \<le> rnd k < 1\<close>; the theorems that need it assume it.
\<close>

definition p_random :: "(nat \<Rightarrow> real) \<Rightarrow> nat \<Rightarrow> real \<Rightarrow> real \<Rightarrow> real" where
  "p_random rnd k lo hi = (if lo > hi then rnd k * (lo - hi) + hi else rnd k * (hi - lo) + lo)"

definition unit_draws :: "(nat \<Rightarrow> real) \<Rightarrow> bool" where
  "unit_draws rnd = (\<forall>k. 0 \<le> rnd k \<and> rnd k < 1)"

definition p_width :: real where "p_width = 700"
definition p_height :: real where "p_height = 700"

text \<open>The constructor of \<^verbatim>\<open>Bird\<close>: two draws, speed then angle.\<close>

definition new_Bird :: "(nat \<Rightarrow> real) \<Rightarrow> nat \<Rightarrow> real \<Rightarrow> real \<Rightarrow> nat list \<Rightarrow> Bird" where
  "new_Bird rnd k px py c =
     \<lparr>bird_x = px, bird_y = py, bird_color = c,
      speed = p_random rnd k 2 4,
      angle = p_random rnd (k + 1) (- pi / 4) (- 3 * pi / 4),
      bird_size = 15, wingAngle = 0, wingSpeed = 0.2\<rparr>"

definition Bird_update :: "Bird \<Rightarrow> Bird" where
  "Bird_update b =
     b\<lparr>bird_x := bird_x b + speed b * cos (angle b),
       bird_y := bird_y b + speed b * sin (angle b),
       wingAngle := wingAngle b + wingSpeed b\<rparr>"

definition isOutOfBounds :: "Bird \<Rightarrow> bool" where
  "isOutOfBounds b =
     (let buffer = 50
      in bird_y b < - buffer \<or> bird_y b > p_height + buffer \<or>
         bird_x b < - buffer \<or> bird_x b > p_width + buffer)"

text \<open>
  The loop of \<^verbatim>\<open>p.draw\<close> over the birds, from the last index down to 0:
  \<open>draw_birds (Suc i)\<close> handles index \<open>i\<close> (update, then \<^verbatim>\<open>splice(i, 1)\<close> when the bird has
  left the canvas) and goes on below it.
\<close>

fun draw_birds :: "nat \<Rightarrow> Bird list \<Rightarrow> Bird list" where
  "draw_birds 0 bs = bs"
| "draw_birds (Suc i) bs =
     (let bs1 = bs[i := Bird_update (bs ! i)]
      in draw_birds i (if isOutOfBounds (bs1 ! i) then take i bs1 @ drop (Suc i) bs1 else bs1))"

definition p_draw :: "sketch \<Rightarrow> sketch" where
  "p_draw s =
     (let s1 = s\<lparr>birds := draw_birds (length (birds s)) (birds s)\<rparr>
      in if length (birds s1) = 0 then s1\<lparr>looping := False\<rparr> else s1)"

text \<open>
  The frame function of p5 and its \<^verbatim>\<open>loop()\<close>. The frame function draws a frame when the
  sketch is not looping or a frame is due (the last frame was drawn at least a frame
  interval, less 5 ms, ago); whether one is due at a call is the input \<open>due\<close>. It then asks
  the host for the next frame if the sketch is looping. \<^verbatim>\<open>loop()\<close> on a sketch that is not
  looping sets the flag and runs the frame function at once, so a frame that is due is
  drawn before \<^verbatim>\<open>loop()\<close> returns; on a looping sketch it does nothing.
\<close>

definition p5_draw :: "bool \<Rightarrow> sketch \<Rightarrow> sketch" where
  "p5_draw due s = (if \<not> looping s \<or> due then p_draw s else s)"

definition p_loop :: "bool \<Rightarrow> sketch \<Rightarrow> sketch" where
  "p_loop due s = (if \<not> looping s then p5_draw due (s\<lparr>looping := True\<rparr>) else s)"

text \<open>
  \<^verbatim>\<open>generateLeaves\<close>, called once from \<^verbatim>\<open>setup\<close>: one leaf per position, with a colour name
  drawn from \<^verbatim>\<open>colors\<close>, then a size drawn from 12 to 24. An index outside \<^verbatim>\<open>colors\<close> would
  give a leaf with no colour, which the first drawing of the leaf answers with
  \<^verbatim>\<open>TypeError\<close>; the model raises it here.
\<close>

definition colors :: "string list" where
  "colors = [''yellow'', ''orange'', ''pink'', ''red'', ''green'', ''darkgreen'', ''blue'',
     ''darkblue'', ''purple'', ''ash'', ''brown'', ''black'']"

definition leafColors :: "string \<Rightarrow> nat list option" where
  "leafColors = map_of
     [(''yellow'', [255, 248, 0]), (''orange'', [255, 119, 51]), (''pink'', [250, 112, 206]),
      (''red'', [242, 92, 100]), (''green'', [112, 250, 154]), (''darkgreen'', [95, 217, 134]),
      (''blue'', [94, 255, 252]), (''darkblue'', [66, 135, 245]), (''purple'', [115, 92, 242]),
      (''ash'', [117, 117, 117]), (''brown'', [242, 170, 92]), (''black'', [10, 10, 10])]"

fun generateLeaves_loop :: "(nat \<Rightarrow> real) \<Rightarrow> Position list \<Rightarrow> sketch \<Rightarrow> error + sketch" where
  "generateLeaves_loop rnd [] s = Inr s"
| "generateLeaves_loop rnd (pos # leafPositions) s =
     (let index = \<lfloor>p_random rnd (rpos s) 0 (real (length colors))\<rfloor>
      in if 0 \<le> index \<and> index < int (length colors) then
           let colorName1 = colors ! nat index
           in case leafColors colorName1 of
                None \<Rightarrow> Inl TypeError
              | Some rgb \<Rightarrow>
                  generateLeaves_loop rnd leafPositions
                    (s\<lparr>leaves := leaves s @
                         [\<lparr>x = x pos, y = y pos, leaf_size = p_random rnd (rpos s + 1) 12 24,
                           color = rgb, colorName = colorName1, isUsed = False\<rparr>],
                       rpos := rpos s + 2\<rparr>)
         else Inl TypeError)"

definition generateLeaves :: "(nat \<Rightarrow> real) \<Rightarrow> sketch \<Rightarrow> error + sketch" where
  "generateLeaves rnd s =
     generateLeaves_loop rnd
       (generateLeafPositions (p_width / 2) (p_height - 260) 126 (- pi / 2) 6 []) s"

text \<open>
  The sketch when \<^verbatim>\<open>setup\<close> has run: the closure's variables as they are initialised,
  \<^verbatim>\<open>noLoop()\<close> called, the leaves generated; no timer is registered yet.
\<close>

definition p_setup :: "(nat \<Rightarrow> real) \<Rightarrow> error + sketch" where
  "p_setup rnd =
     generateLeaves rnd
       \<lparr>leaves = [], birds = [], flightInterval = None, looping = False, intervals = [],
        nextTimer = 1, rpos = 0\<rparr>"

text \<open>
  \<^verbatim>\<open>fly(color, count)\<close>. \<^verbatim>\<open>availableLeaves\<close> holds references to the leaf objects of
  \<^verbatim>\<open>leaves\<close>, so the model keeps their indices in \<^verbatim>\<open>leaves\<close>: setting \<^verbatim>\<open>leaf.isUsed\<close> then
  updates the pool itself. An index outside \<^verbatim>\<open>availableLeaves\<close> would read \<^verbatim>\<open>undefined\<close>, and
  the assignment to its field raises \<^verbatim>\<open>TypeError\<close>. \<open>due\<close> says whether p5 finds a frame due
  when \<^verbatim>\<open>fly\<close> calls \<^verbatim>\<open>p.loop()\<close>.
\<close>

definition availableLeaves :: "string option \<Rightarrow> Leaf list \<Rightarrow> nat list" where
  "availableLeaves c ls =
     filter (\<lambda>i. \<not> isUsed (ls ! i) \<and> (c = None \<or> Some (colorName (ls ! i)) = c)) [0..<length ls]"

fun fly_loop :: "(nat \<Rightarrow> real) \<Rightarrow> nat \<Rightarrow> nat list \<Rightarrow> sketch \<Rightarrow> error + sketch" where
  "fly_loop rnd 0 available s = Inr s"
| "fly_loop rnd (Suc n) available s =
     (let index = \<lfloor>p_random rnd (rpos s) 0 (real (length available))\<rfloor>
      in if 0 \<le> index \<and> index < int (length available) then
           let l = available ! nat index;
               leaf = leaves s ! l;
               s1 = s\<lparr>leaves := (leaves s)[l := leaf\<lparr>isUsed := True\<rparr>],
                       birds := birds s @ [new_Bird rnd (rpos s + 1) (x leaf) (y leaf) (color leaf)],
                       rpos := rpos s + 3\<rparr>
           in fly_loop rnd n (take (nat index) available @ drop (Suc (nat index)) available) s1
         else Inl TypeError)"

definition fly ::
  "(nat \<Rightarrow> real) \<Rightarrow> string option \<Rightarrow> int \<Rightarrow> bool \<Rightarrow> sketch \<Rightarrow> error + sketch" where
  "fly rnd c count due s =
     (let available = availableLeaves c (leaves s);
          numToFly = min count (int (length available))
      in case fly_loop rnd (nat numToFly) available s of
           Inl e \<Rightarrow> Inl e
         | Inr s1 \<Rightarrow> Inr (if \<not> looping s1 then p_loop due s1 else s1))"


text \<open>
  How a leaf may differ between two moments: not at all, or by \<^verbatim>\<open>isUsed\<close> having been set.
\<close>

definition leaf_step :: "Leaf \<Rightarrow> Leaf \<Rightarrow> bool" where
  "leaf_step a b = (b = a \<or> b = a\<lparr>isUsed := True\<rparr>)"

definition usedCount :: "Leaf list \<Rightarrow> nat" where
  "usedCount ls = length (filter isUsed ls)"

text \<open>Where a bird was created and with which colour; the same of the leaf at an index.\<close>

definition origin :: "Bird \<Rightarrow> real \<times> real \<times> nat list" where
  "origin b = (bird_x b, bird_y b, bird_color b)"

definition leaf_origin :: "Leaf list \<Rightarrow> nat \<Rightarrow> real \<times> real \<times> nat list" where
  "leaf_origin ls i = (x (ls ! i), y (ls ! i), color (ls ! i))"

text \<open>
  A small sketch for the examples: three leaves (yellow, a used ash one, yellow), no bird,
  no campaign, the loop idle; and a generator whose draws are all 0.
\<close>

definition yellow_leaf :: Leaf where
  "yellow_leaf = \<lparr>x = 10, y = 20, leaf_size = 12, color = [255, 248, 0], colorName = ''yellow'',
     isUsed = False\<rparr>"

definition sketch0 :: sketch where
  "sketch0 =
     \<lparr>leaves = [yellow_leaf, yellow_leaf\<lparr>x := 30, colorName := ''ash'', isUsed := True\<rparr>,
                yellow_leaf\<lparr>x := 50\<rparr>],
      birds = [], flightInterval = None, looping = False, intervals = [], nextTimer = 1, rpos = 0\<rparr>"

definition rnd0 :: "nat \<Rightarrow> real" where
  "rnd0 k = 0"


section \<open>Flight controller (tree-animation.tsx, startRandomFlight)\<close>

text \<open>
  The host's timers: \<^verbatim>\<open>setInterval\<close> registers the callback under a fresh handle and
  returns the handle, \<^verbatim>\<open>clearInterval\<close> removes the registration with that handle, if any.
  A handle is an object or a positive number, so \<^verbatim>\<open>if (flightInterval)\<close> tests for
  \<^verbatim>\<open>null\<close> only.
\<close>

definition setInterval :: "string option \<times> int \<Rightarrow> nat \<Rightarrow> sketch \<Rightarrow> nat \<times> sketch" where
  "setInterval cb delay s =
     (nextTimer s,
      s\<lparr>intervals := intervals s @ [(nextTimer s, cb, delay)], nextTimer := Suc (nextTimer s)\<rparr>)"

definition clearInterval :: "nat \<Rightarrow> sketch \<Rightarrow> sketch" where
  "clearInterval h s = s\<lparr>intervals := filter (\<lambda>e. fst e \<noteq> h) (intervals s)\<rparr>"

text \<open>The closure that \<^verbatim>\<open>startRandomFlight\<close> returns; it reads \<^verbatim>\<open>flightInterval\<close> when called.\<close>

definition cancel :: "sketch \<Rightarrow> sketch" where
  "cancel s = (case flightInterval s of None \<Rightarrow> s | Some h \<Rightarrow> clearInterval h s)"

definition startRandomFlight :: "string option \<Rightarrow> int \<Rightarrow> sketch \<Rightarrow> sketch \<times> (sketch \<Rightarrow> sketch)" where
  "startRandomFlight c count s =
     (let s1 = (case flightInterval s of None \<Rightarrow> s | Some h \<Rightarrow> clearInterval h s);
          (h, s2) = setInterval (c, count) 1000 s1
      in (s2\<lparr>flightInterval := Some h\<rparr>, cancel))"

text \<open>The cleanup of the effect: the timer is cleared (the p5 instance is then removed).\<close>

definition teardown :: "sketch \<Rightarrow> sketch" where
  "teardown s = (case flightInterval s of None \<Rightarrow> s | Some h \<Rightarrow> clearInterval h s)"

text \<open>
  What the host does when the interval with handle \<open>h\<close> elapses: the registered callback
  runs \<^verbatim>\<open>fly(color, count)\<close>; a handle that is not registered fires nothing.
\<close>

definition timer_fire :: "(nat \<Rightarrow> real) \<Rightarrow> nat \<Rightarrow> bool \<Rightarrow> sketch \<Rightarrow> error + sketch" where
  "timer_fire rnd h due s =
     (case map_of (intervals s) h of
        None \<Rightarrow> Inr s
      | Some ((c, count), delay) \<Rightarrow> fly rnd c count due s)"

text \<open>
  A frame of the host: the frame function of p5 is the callback, and it has asked for the
  frame only if the sketch was looping.
\<close>

definition frame :: "bool \<Rightarrow> sketch \<Rightarrow> sketch" where
  "frame due s = (if looping s then p5_draw due s else s)"

text \<open>
  The hook \<^verbatim>\<open>useTreeAnimation\<close>: its two wrappers call the controller when there is one
  and return nothing.
\<close>

definition useTreeAnimation_startRandomFlight :: "bool \<Rightarrow> string option \<Rightarrow> int \<Rightarrow> sketch \<Rightarrow> sketch" where
  "useTreeAnimation_startRandomFlight controller c count s =
     (if controller then fst (startRandomFlight c count s) else s)"

definition useTreeAnimation_fly ::
  "(nat \<Rightarrow> real) \<Rightarrow> bool \<Rightarrow> string option \<Rightarrow> int \<Rightarrow> bool \<Rightarrow> sketch \<Rightarrow> error + sketch" where
  "useTreeAnimation_fly rnd controller c count due s =
     (if controller then fly rnd c count due s else Inr s)"

text \<open>
  Everything that can happen to a sketch between its setup and its teardown: calls of the
  controller's two methods, a call of a cancellation handle that a caller kept, an
  interval elapsing, a frame; the flag of an event says whether p5 finds a frame due at
  that moment. A run stops at the first exception.
\<close>

datatype event =
    Fly "string option" int bool
  | StartRandomFlight "string option" int
  | Cancel
  | Timer nat bool
  | Frame bool

fun exec :: "(nat \<Rightarrow> real) \<Rightarrow> event \<Rightarrow> sketch \<Rightarrow> error + sketch" where
  "exec rnd (Fly c count due) s = fly rnd c count due s"
| "exec rnd (StartRandomFlight c count) s = Inr (fst (startRandomFlight c count s))"
| "exec rnd Cancel s = Inr (cancel s)"
| "exec rnd (Timer h due) s = timer_fire rnd h due s"
| "exec rnd (Frame due) s = Inr (frame due s)"

fun run :: "(nat \<Rightarrow> real) \<Rightarrow> event list \<Rightarrow> sketch \<Rightarrow> error + sketch" where
  "run rnd [] s = Inr s"
| "run rnd (e # es) s = (case exec rnd e s of Inl err \<Rightarrow> Inl err | Inr s1 \<Rightarrow> run rnd es s1)"

text \<open>
  The events that code holding only the hook's result can cause: the two wrappers (with a
  controller present they are the controller's methods, results dropped), and the host's
  timers and frames. No cancellation handle reaches such code.
\<close>

fun hook_event :: "event \<Rightarrow> bool" where
  "hook_event Cancel = False"
| "hook_event _ = True"

definition no_start :: "event list \<Rightarrow> bool" where
  "no_start evs = (\<forall>e\<in>set evs. \<forall>c count. e \<noteq> StartRandomFlight c count)"

text \<open>
  The controller's invariant: at most one interval timer is registered, and it is the one
  whose handle \<^verbatim>\<open>flightInterval\<close> holds. It holds when nothing is registered, as after setup.
\<close>

definition controller_inv :: "sketch \<Rightarrow> bool" where
  "controller_inv s =
     (length (intervals s) \<le> 1 \<and> (\<forall>e\<in>set (intervals s). flightInterval s = Some (fst e)))"


section \<open>Pitch monitor (PitchMonitor: updatePitch, renderFrame, the effect)\<close>

text \<open>
  \<^verbatim>\<open>PitchSetup\<close>: each field is absent until \<^verbatim>\<open>setupConnection\<close> has stored it. Of the
  analyser the model keeps its \<^verbatim>\<open>fftSize\<close>, of the audio context its \<^verbatim>\<open>sampleRate\<close>, of the
  buffer its contents.
\<close>

record PitchSetup =
  analyser :: "nat option"
  audioContext :: "real option"
  buffer :: "real list option"

record PitchProps =
  windowSize :: nat
  powerThreshold :: real
  clarityThreshold :: real

text \<open>A \<^verbatim>\<open>getPitch\<close> call: samples, sample rate, power threshold, clarity threshold.\<close>

type_synonym request = "real list \<times> real \<times> real \<times> real"

text \<open>
  The state of one mounted monitor during one run of its effect: the two React states, the
  two refs, the flag \<^verbatim>\<open>escape.cancelRender\<close> of the effect, and what the host holds for it:
  the \<^verbatim>\<open>getPitch\<close> calls sent to the worker and not yet answered, the callbacks given to
  \<^verbatim>\<open>setTimeout\<close> and not yet run (the arguments of their \<^verbatim>\<open>startRandomFlight\<close> call), and
  whether a \<^verbatim>\<open>requestAnimationFrame(renderFrame)\<close> is waiting.
\<close>

record monitor =
  freq :: "real option"
  clarity :: "real option"
  pendingRef :: bool
  pitchSetupRef :: PitchSetup
  calls :: "request list"
  timeouts :: "(string option \<times> int) list"
  cancelRender :: bool
  frameRequested :: bool

text \<open>The object literal \<^verbatim>\<open>colorMap\<close> of \<^verbatim>\<open>updatePitch\<close>; a missing key reads \<^verbatim>\<open>undefined\<close>.\<close>

definition colorMap :: "string \<Rightarrow> string option" where
  "colorMap = map_of
     [(''C'', ''yellow''), (''Db'', ''orange''), (''D'', ''pink''), (''Eb'', ''red''),
      (''E'', ''green''), (''F'', ''darkgreen''), (''Gb'', ''blue''), (''G'', ''darkblue''),
      (''Ab'', ''purple''), (''A'', ''ash''), (''Bb'', ''brown''), (''B'', ''black'')]"

text \<open>
  \<^verbatim>\<open>analyser.getFloatTimeDomainData(buffer)\<close> overwrites the buffer with the analyser's current
  samples, as many as fit.
\<close>

definition getFloatTimeDomainData :: "real list \<Rightarrow> real list \<Rightarrow> real list" where
  "getFloatTimeDomainData samples b = take (length b) samples @ drop (length samples) b"

text \<open>
  \<^verbatim>\<open>updatePitch\<close> is an async function. \<open>updatePitch\<close> is its run from the call to the
  \<^verbatim>\<open>await\<close> (or to its end, when it returns before); \<open>updatePitch_resume\<close> is the rest, run
  when the worker's answer arrives. \<open>samples\<close> is what the analyser holds at the call.
  The helper \<^verbatim>\<open>freqToNote\<close> is imported from another module and is a parameter here.
\<close>

definition updatePitch :: "PitchProps \<Rightarrow> real list \<Rightarrow> monitor \<Rightarrow> monitor" where
  "updatePitch props samples m =
     (if \<not> pendingRef m then
        let m1 = m\<lparr>pendingRef := True\<rparr>;
            pitchSetup = pitchSetupRef m1
        in case (analyser pitchSetup, buffer pitchSetup, audioContext pitchSetup) of
             (Some a, Some b, Some sampleRate) \<Rightarrow>
               let b1 = getFloatTimeDomainData samples b
               in m1\<lparr>pitchSetupRef := pitchSetup\<lparr>buffer := Some b1\<rparr>,
                      calls := calls m1 @ [(b1, sampleRate, powerThreshold props, clarityThreshold props)]\<rparr>
           | _ \<Rightarrow> m1
      else m)"

definition updatePitch_resume :: "(real \<Rightarrow> string \<times> int) \<Rightarrow> real \<times> real \<Rightarrow> monitor \<Rightarrow> monitor" where
  "updatePitch_resume freqToNote result m =
     (let frequency = fst result;
          clarity1 = snd result;
          m1 = (if frequency > 0 then
                  let (note, octave) = freqToNote frequency;
                      color1 = colorMap note;
                      randomNum = octave
                  in m\<lparr>freq := Some frequency, clarity := Some clarity1,
                        timeouts := timeouts m @ [(color1, randomNum)]\<rparr>
                else m\<lparr>freq := None, clarity := None\<rparr>)
      in m1\<lparr>pendingRef := False\<rparr>)"

definition setupConnection :: "PitchProps \<Rightarrow> real \<Rightarrow> monitor \<Rightarrow> monitor" where
  "setupConnection props sampleRate m =
     m\<lparr>pitchSetupRef := (pitchSetupRef m)
        \<lparr>buffer := Some (replicate (windowSize props) 0),
         audioContext := Some sampleRate,
         analyser := Some (windowSize props)\<rparr>\<rparr>"

definition renderFrame :: "PitchProps \<Rightarrow> real list \<Rightarrow> monitor \<Rightarrow> monitor" where
  "renderFrame props samples m =
     (if cancelRender m then m
      else updatePitch props samples (m\<lparr>frameRequested := True\<rparr>))"

text \<open>The function the effect returns, run when \<^verbatim>\<open>enabled\<close> turns false or at unmount.\<close>

definition cleanup :: "monitor \<Rightarrow> monitor" where
  "cleanup m = m\<lparr>cancelRender := True\<rparr>"

text \<open>
  What can happen to the monitor: the setup finishes (then \<^verbatim>\<open>renderFrame\<close> is called), the
  host runs a requested frame, the worker answers or fails the oldest call, the effect is
  cleaned up, the delay of the oldest \<^verbatim>\<open>setTimeout\<close> callback has passed and the host runs
  it (what the callback does to the sketch is \<open>delayed_trigger\<close> below). A failed call
  ends \<^verbatim>\<open>updatePitch\<close> at the \<^verbatim>\<open>await\<close>.
\<close>

datatype mon_event =
    SetupDone real "real list"
  | AnimationFrame "real list"
  | Response "real \<times> real"
  | Rejection
  | Cleanup
  | TimeoutElapsed

fun monitor_step ::
  "PitchProps \<Rightarrow> (real \<Rightarrow> string \<times> int) \<Rightarrow> mon_event \<Rightarrow> monitor \<Rightarrow> monitor" where
  "monitor_step props freqToNote (SetupDone sampleRate samples) m =
     renderFrame props samples (setupConnection props sampleRate m)"
| "monitor_step props freqToNote (AnimationFrame samples) m =
     (if frameRequested m then renderFrame props samples (m\<lparr>frameRequested := False\<rparr>) else m)"
| "monitor_step props freqToNote (Response result) m =
     (case calls m of [] \<Rightarrow> m | q # qs \<Rightarrow> updatePitch_resume freqToNote result (m\<lparr>calls := qs\<rparr>))"
| "monitor_step props freqToNote Rejection m =
     (case calls m of [] \<Rightarrow> m | q # qs \<Rightarrow> m\<lparr>calls := qs\<rparr>)"
| "monitor_step props freqToNote Cleanup m = cleanup m"
| "monitor_step props freqToNote TimeoutElapsed m =
     (case timeouts m of [] \<Rightarrow> m | t # ts \<Rightarrow> m\<lparr>timeouts := ts\<rparr>)"

definition monitor_run ::
  "PitchProps \<Rightarrow> (real \<Rightarrow> string \<times> int) \<Rightarrow> mon_event list \<Rightarrow> monitor \<Rightarrow> monitor" where
  "monitor_run props freqToNote evs m = fold (monitor_step props freqToNote) evs m"

text \<open>
  The callback given to \<^verbatim>\<open>setTimeout\<close>, run by the host 2000 ms later: it calls the
  hook's \<^verbatim>\<open>startRandomFlight\<close> and drops what that returns.
\<close>

definition delayed_trigger :: "bool \<Rightarrow> monitor \<Rightarrow> sketch \<Rightarrow> monitor \<times> sketch" where
  "delayed_trigger controller m s =
     (case timeouts m of
        [] \<Rightarrow> (m, s)
      | (c, count) # ts \<Rightarrow>
          (m\<lparr>timeouts := ts\<rparr>, useTreeAnimation_startRandomFlight controller c count s))"

text \<open>The monitor as it is mounted: nothing set up, nothing pending.\<close>

definition monitor_init :: monitor where
  "monitor_init =
     \<lparr>freq = None, clarity = None, pendingRef = False,
      pitchSetupRef = \<lparr>analyser = None, audioContext = None, buffer = None\<rparr>,
      calls = [], timeouts = [], cancelRender = False, frameRequested = False\<rparr>"



text \<open>
  The scheduler's invariant: at most one \<^verbatim>\<open>getPitch\<close> call is unanswered, and while one is,
  \<^verbatim>\<open>pendingRef\<close> is set.
\<close>

definition one_request :: "monitor \<Rightarrow> bool" where
  "one_request m = (length (calls m) \<le> 1 \<and> (calls m \<noteq> [] \<longrightarrow> pendingRef m))"

text \<open>Props for the examples: a window of two samples.\<close>

definition props0 :: PitchProps where
  "props0 = \<lparr>windowSize = 2, powerThreshold = 0.5, clarityThreshold = 0.5\<rparr>"


section \<open>Note mapper\<close>

text \<open>
  Modelled from the spec: the helper \<^verbatim>\<open>freqToNote\<close> (module \<^verbatim>\<open>circle-chart/utils\<close>) is not
  among the sources. The specification gives: semitone offset
  \<open>round (12 \<cdot> log\<^sub>2 (freq / 440))\<close>; name: the offset modulo 12, indexed into the chromatic
  sequence starting at C; octave: \<open>4 + floor ((offset + 9) / 12)\<close>. Frequencies are real
  numbers here, and \<open>round\<close> takes a half upwards.
\<close>

definition chromatic :: "string list" where
  "chromatic = [''C'', ''Db'', ''D'', ''Eb'', ''E'', ''F'', ''Gb'', ''G'', ''Ab'', ''A'', ''Bb'', ''B'']"

definition semitoneOffset :: "real \<Rightarrow> int" where
  "semitoneOffset f = round (12 * log 2 (f / 440))"

definition frequencyToNote :: "real \<Rightarrow> string \<times> int" where
  "frequencyToNote f =
     (let offset = semitoneOffset f
      in (chromatic ! nat (offset mod 12), 4 + (offset + 9) div 12))"

text \<open>
  Modelled from the spec: the same helper with the pitch class counted from C, nine
  semitones below A, as the specification's octave formula counts and as its examples
  (440 Hz is A4) require.
\<close>

definition noteFromC :: "real \<Rightarrow> string \<times> int" where
  "noteFromC f =
     (let offset = semitoneOffset f
      in (chromatic ! nat ((offset + 9) mod 12), 4 + (offset + 9) div 12))"


section \<open>Properties of the leaf positions\<close>

lemma fold_pushes:
  "(\<And>i ps. i \<in> set js \<Longrightarrow> f i ps = ps @ g i) \<Longrightarrow> fold f js ps = ps @ concat (map g js)"
  by (induction js arbitrary: ps) simp_all

lemma fold_length_const:
  "(\<And>i ps. i \<in> set js \<Longrightarrow> length (f i ps) = length ps + c) \<Longrightarrow>
   length (fold f js ps) = length ps + length js * c"
  by (induction js arbitrary: ps) simp_all

lemma generateLeafPositions_append:
  "generateLeafPositions x0 y0 len ang depth positions =
   positions @ generateLeafPositions x0 y0 len ang depth []"
proof (induction x0 y0 len ang depth positions rule: generateLeafPositions.induct)
  case (1 x0 y0 len ang depth positions)
  show ?case
  proof (cases "depth \<le> 1")
    case True
    then show ?thesis by (simp add: generateLeafPositions.simps)
  next
    case False
    define bc :: nat where "bc = (if 4 < depth then 3 else 2)"
    have step: "generateLeafPositions ex ey nl na (depth - 1) (ps @ [\<lparr>x = ex, y = ey\<rparr>]) =
        ps @ \<lparr>x = ex, y = ey\<rparr> # generateLeafPositions ex ey nl na (depth - 1) []"
      if "i \<in> set [0..<bc]"
        and "na = (ang - pi / 3 * (real bc - 1) / 2) + pi / 3 * real i"
        and "ex = x0 + len * cos na" and "ey = y0 + len * sin na" and "nl = len * (65 / 10\<^sup>2)"
      for i ex ey nl na ps
      using "1.IH" [OF False bc_def refl refl that(1) that(2) that(3) that(4) that(5), of "ps"]
      by simp
    have *: "generateLeafPositions x0 y0 len ang depth ps =
        ps @ concat (map (branchSlots x0 y0 len ang depth) [0..<bc])" for ps
      using False
      apply (subst generateLeafPositions.simps)
      apply (simp only: if_False Let_def bc_def [symmetric])
      apply (rule fold_pushes)
      apply (simp only: branchSlots_def Let_def bc_def [symmetric])
      apply (rule step)
      apply auto
      done
    show ?thesis using * [of positions] * [of "[]"] by simp
  qed
qed

lemma generateLeafPositions_unfold:
  "generateLeafPositions x0 y0 len ang depth positions =
     positions @
     (if depth \<le> 1 then [\<lparr>x = x0, y = y0\<rparr>]
      else concat (map (branchSlots x0 y0 len ang depth) [0..<(if depth > 4 then 3 else 2)]))"
proof (cases "depth \<le> 1")
  case True
  then show ?thesis by (simp add: generateLeafPositions.simps)
next
  case False
  define bc :: nat where "bc = (if 4 < depth then 3 else 2)"
  have "generateLeafPositions x0 y0 len ang depth positions =
      positions @ concat (map (branchSlots x0 y0 len ang depth) [0..<bc])"
    using False
    apply (subst generateLeafPositions.simps)
    apply (simp only: if_False Let_def bc_def [symmetric])
    apply (rule fold_pushes)
    apply (simp only: branchSlots_def Let_def bc_def [symmetric])
    apply (subst generateLeafPositions_append)
    apply simp
    done
  then show ?thesis using False by (simp add: bc_def)
qed

lemma generateLeafPositions_length:
  "length (generateLeafPositions x0 y0 len ang depth positions) = length positions + slotCount depth"
proof (induction x0 y0 len ang depth positions rule: generateLeafPositions.induct)
  case (1 x0 y0 len ang depth positions)
  show ?case
  proof (cases "depth \<le> 1")
    case True
    then show ?thesis by (simp add: generateLeafPositions.simps slotCount.simps)
  next
    case False
    define bc :: nat where "bc = (if 4 < depth then 3 else 2)"
    have step: "length (generateLeafPositions ex ey nl na (depth - 1) (ps @ [\<lparr>x = ex, y = ey\<rparr>])) =
        length ps + (1 + slotCount (depth - 1))"
      if "i \<in> set [0..<bc]"
        and "na = (ang - pi / 3 * (real bc - 1) / 2) + pi / 3 * real i"
        and "ex = x0 + len * cos na" and "ey = y0 + len * sin na" and "nl = len * (65 / 10\<^sup>2)"
      for i ex ey nl na ps
      using "1.IH" [OF False bc_def refl refl that(1) that(2) that(3) that(4) that(5)] by simp
    have "length (generateLeafPositions x0 y0 len ang depth positions) =
        length positions + length [0..<bc] * (1 + slotCount (depth - 1))"
      using False
      apply (subst generateLeafPositions.simps)
      apply (simp only: if_False Let_def bc_def [symmetric])
      apply (rule fold_length_const)
      apply (rule step)
      apply auto
      done
    also have "length [0..<bc] * (1 + slotCount (depth - 1)) = slotCount depth"
      using False by (subst (2) slotCount.simps) (simp add: bc_def)
    finally show ?thesis .
  qed
qed

lemma terminalEndpoints_length:
  "length (terminalEndpoints x0 y0 len ang depth positions) = length positions + terminalCount depth"
proof (induction x0 y0 len ang depth positions rule: terminalEndpoints.induct)
  case (1 x0 y0 len ang depth positions)
  show ?case
  proof (cases "depth \<le> 1")
    case True
    then show ?thesis by (simp add: terminalEndpoints.simps terminalCount.simps)
  next
    case False
    define bc :: nat where "bc = (if 4 < depth then 3 else 2)"
    have step: "length (terminalEndpoints ex ey nl na (depth - 1) ps) =
        length ps + terminalCount (depth - 1)"
      if "i \<in> set [0..<bc]"
        and "na = (ang - pi / 3 * (real bc - 1) / 2) + pi / 3 * real i"
        and "ex = x0 + len * cos na" and "ey = y0 + len * sin na" and "nl = len * (65 / 10\<^sup>2)"
      for i ex ey nl na ps
      using "1.IH" [OF False bc_def refl refl that(1) that(2) that(3) that(4) that(5)] by simp
    have "length (terminalEndpoints x0 y0 len ang depth positions) =
        length positions + length [0..<bc] * terminalCount (depth - 1)"
      using False
      apply (subst terminalEndpoints.simps)
      apply (simp only: if_False Let_def bc_def [symmetric])
      apply (rule fold_length_const)
      apply (rule step)
      apply auto
      done
    also have "length [0..<bc] * terminalCount (depth - 1) = terminalCount depth"
      using False by (subst (2) terminalCount.simps) (simp add: bc_def)
    finally show ?thesis .
  qed
qed

lemma slotCount_6: "slotCount 6 = 210"
  by (simp add: slotCount.simps)

lemma terminalCount_6: "terminalCount 6 = 72"
  by (simp add: terminalCount.simps)

text \<open>
  C8, as claimed: a leaf slot is recorded exactly at each endpoint reached with remaining
  depth at most 1, and nowhere else. The tree of the program (origin (350, 440), length 126,
  angle \<open>- \<pi> / 2\<close>, depth 6) has 72 such endpoints, and the code records 210 slots.
\<close>

theorem C8_counterexample:
  "length (generateLeafPositions 350 440 126 (- pi / 2) 6 []) = 210 \<and>
   length (terminalEndpoints 350 440 126 (- pi / 2) 6 []) = 72 \<and>
   generateLeafPositions 350 440 126 (- pi / 2) 6 [] \<noteq> terminalEndpoints 350 440 126 (- pi / 2) 6 []"
proof -
  have a: "length (generateLeafPositions 350 440 126 (- pi / 2) 6 []) = 210"
    by (simp add: generateLeafPositions_length slotCount_6)
  have b: "length (terminalEndpoints 350 440 126 (- pi / 2) 6 []) = 72"
    by (simp add: terminalEndpoints_length terminalCount_6)
  from a b have "generateLeafPositions 350 440 126 (- pi / 2) 6 [] \<noteq> terminalEndpoints 350 440 126 (- pi / 2) 6 []"
    by (metis numeral_eq_iff semiring_norm(88) semiring_norm(89) num.inject)
  with a b show ?thesis by simp
qed

text \<open>
  C8, amended: the call appends to the array and leaves what was in it alone. With depth at
  most 1 it appends the current point. Otherwise it appends, for each of the 3 (depth above
  4) or 2 branches in turn, the endpoint of the branch followed by all the slots of the
  recursive call at that endpoint, so every branch endpoint of every level is recorded, and
  an endpoint at which the recursion ends is recorded twice. The number of slots appended
  is \<open>slotCount depth\<close>, a function of the depth alone (210 for depth 6).
\<close>

theorem C8_generateLeafPositions_slots:
  "generateLeafPositions x0 y0 len ang depth positions =
     positions @
     (if depth \<le> 1 then [\<lparr>x = x0, y = y0\<rparr>]
      else concat (map (branchSlots x0 y0 len ang depth) [0..<(if depth > 4 then 3 else 2)]))
   \<and> length (generateLeafPositions x0 y0 len ang depth positions) = length positions + slotCount depth"
  using generateLeafPositions_unfold [of x0 y0 len ang depth positions]
    generateLeafPositions_length [of x0 y0 len ang depth positions] by simp

theorem C8_generateLeafPositions_slots_witness:
  "generateLeafPositions 0 0 1 0 1 [] = [\<lparr>x = 0, y = 0\<rparr>] \<and>
   length (generateLeafPositions 350 440 126 (- pi / 2) 6 []) = 210 \<and>
   length (generateLeafPositions 0 0 1 0 2 []) = 4"
proof -
  have a: "generateLeafPositions 0 0 1 0 1 [] = [\<lparr>x = 0, y = 0\<rparr>]"
    using C8_generateLeafPositions_slots [of 0 0 1 0 1 "[]", THEN conjunct1] by simp
  have b: "length (generateLeafPositions 350 440 126 (- pi / 2) 6 []) = 210"
    using C8_generateLeafPositions_slots [of 350 440 126 "- pi / 2" 6 "[]", THEN conjunct2]
    by (simp add: slotCount.simps)
  have c: "length (generateLeafPositions 0 0 1 0 2 []) = 4"
    using C8_generateLeafPositions_slots [of 0 0 1 0 2 "[]", THEN conjunct2]
    by (simp add: slotCount.simps)
  from a b c show ?thesis by simp
qed


section \<open>Properties of the note mapper\<close>

lemma semitoneOffset_exact: "semitoneOffset (440 * 2 powr (real_of_int n / 12)) = n"
proof -
  have "12 * log 2 (440 * 2 powr (real_of_int n / 12) / 440) = real_of_int n"
    by simp
  then show ?thesis
    unfolding semitoneOffset_def by (simp only: round_of_int)
qed

lemma semitoneOffset_440: "semitoneOffset 440 = 0"
  using semitoneOffset_exact [of 0] by simp

lemma semitoneOffset_880: "semitoneOffset 880 = 12"
  using semitoneOffset_exact [of 12] by simp

lemma colorMap_table:
  "colorMap ''C'' = Some ''yellow''" "colorMap ''Db'' = Some ''orange''"
  "colorMap ''D'' = Some ''pink''" "colorMap ''Eb'' = Some ''red''"
  "colorMap ''E'' = Some ''green''" "colorMap ''F'' = Some ''darkgreen''"
  "colorMap ''Gb'' = Some ''blue''" "colorMap ''G'' = Some ''darkblue''"
  "colorMap ''Ab'' = Some ''purple''" "colorMap ''A'' = Some ''ash''"
  "colorMap ''Bb'' = Some ''brown''" "colorMap ''B'' = Some ''black''"
  by (simp_all add: colorMap_def)

lemma chromatic_nth:
  "chromatic ! 0 = ''C''" "chromatic ! 9 = ''A''"
  by (simp_all add: chromatic_def)

text \<open>
  C9, as claimed: with the name taken at index \<open>offset mod 12\<close> of the chromatic sequence
  starting at C, 440 Hz (offset 0) would be the note C and the colour yellow, not A and ash.
\<close>

theorem C9_counterexample:
  "frequencyToNote 440 = (''C'', 4) \<and> frequencyToNote 440 \<noteq> (''A'', 4) \<and>
   colorMap (fst (frequencyToNote 440)) = Some ''yellow''"
  by (simp add: frequencyToNote_def semitoneOffset_440 chromatic_nth colorMap_table)

text \<open>
  C9, amended: the semitone offset of \<open>440 \<cdot> 2\<^bsup>n/12\<^esup>\<close> is \<open>n\<close>; with the name taken at index
  \<open>(offset + 9) mod 12\<close> of the chromatic sequence starting at C and the octave
  \<open>4 + floor ((offset + 9) / 12)\<close>, 440 Hz is (A, 4) with colour ash and 880 Hz is (A, 5);
  \<^verbatim>\<open>colorMap\<close> sends the twelve names, in chromatic order from C, to yellow, orange, pink,
  red, green, darkgreen, blue, darkblue, purple, ash, brown, black; and for a detected
  frequency above 0 the orchestrator queues a campaign with that colour and the octave as
  count.
\<close>

theorem C9_note_and_colour:
  "semitoneOffset (440 * 2 powr (real_of_int n / 12)) = n \<and>
   noteFromC (440 * 2 powr (real_of_int n / 12)) =
     (chromatic ! nat ((n + 9) mod 12), 4 + (n + 9) div 12) \<and>
   noteFromC 440 = (''A'', 4) \<and> colorMap (fst (noteFromC 440)) = Some ''ash'' \<and>
   noteFromC 880 = (''A'', 5) \<and>
   map colorMap chromatic =
     map Some [''yellow'', ''orange'', ''pink'', ''red'', ''green'', ''darkgreen'',
               ''blue'', ''darkblue'', ''purple'', ''ash'', ''brown'', ''black''] \<and>
   (0 < f \<longrightarrow>
      timeouts (updatePitch_resume noteFromC (f, c) m) =
        timeouts m @ [(colorMap (fst (noteFromC f)), snd (noteFromC f))])"
proof -
  have a: "noteFromC 440 = (''A'', 4)"
    by (simp add: noteFromC_def semitoneOffset_440 chromatic_nth)
  have b: "noteFromC 880 = (''A'', 5)"
    by (simp add: noteFromC_def semitoneOffset_880 chromatic_nth)
  have c: "map colorMap chromatic =
     map Some [''yellow'', ''orange'', ''pink'', ''red'', ''green'', ''darkgreen'',
               ''blue'', ''darkblue'', ''purple'', ''ash'', ''brown'', ''black'']"
    by (simp add: chromatic_def colorMap_table)
  have d: "0 < f \<longrightarrow>
      timeouts (updatePitch_resume noteFromC (f, c) m) =
        timeouts m @ [(colorMap (fst (noteFromC f)), snd (noteFromC f))]"
    by (simp add: updatePitch_resume_def Let_def split: prod.split)
  have e: "noteFromC (440 * 2 powr (real_of_int n / 12)) =
     (chromatic ! nat ((n + 9) mod 12), 4 + (n + 9) div 12)"
    by (simp only: noteFromC_def Let_def semitoneOffset_exact)
  from a b c d e show ?thesis
    by (simp only: semitoneOffset_exact colorMap_table fst_conv simp_thms)
qed

theorem C9_note_and_colour_witness:
  "(0::real) < 440 \<and>
   timeouts (updatePitch_resume noteFromC (440, 1) monitor_init) = [(Some ''ash'', 4)]"
proof -
  note inst = C9_note_and_colour [of 0 440 1 monitor_init]
  have a: "noteFromC 440 = (''A'', 4)"
    using inst by blast
  have b: "timeouts (updatePitch_resume noteFromC (440, 1) monitor_init) =
      timeouts monitor_init @ [(colorMap (fst (noteFromC 440)), snd (noteFromC 440))]"
    using inst by simp
  show ?thesis
    unfolding b by (simp add: a monitor_init_def colorMap_table)
qed


section \<open>Properties of the pitch monitor\<close>

lemma updatePitch_pending: "pendingRef m \<Longrightarrow> updatePitch props samples m = m"
  by (simp add: updatePitch_def)

lemma updatePitch_sets_pending: "pendingRef (updatePitch props samples m)"
  by (auto simp: updatePitch_def Let_def split: option.splits)

lemma updatePitch_calls:
  "calls (updatePitch props samples m) = calls m \<or>
   (\<not> pendingRef m \<and> (\<exists>q. calls (updatePitch props samples m) = calls m @ [q]))"
  by (auto simp: updatePitch_def Let_def split: option.splits)

lemma updatePitch_one_request: "one_request m \<Longrightarrow> one_request (updatePitch props samples m)"
  by (auto simp: one_request_def updatePitch_def Let_def split: option.splits)

lemma renderFrame_one_request: "one_request m \<Longrightarrow> one_request (renderFrame props samples m)"
proof -
  assume a: "one_request m"
  then have "one_request (m\<lparr>frameRequested := True\<rparr>)" by (simp add: one_request_def)
  then show ?thesis using a by (simp add: renderFrame_def updatePitch_one_request)
qed

lemma updatePitch_resume_fields:
  "calls (updatePitch_resume f2n r m) = calls m"
  "pendingRef (updatePitch_resume f2n r m) = False"
  "cancelRender (updatePitch_resume f2n r m) = cancelRender m"
  "frameRequested (updatePitch_resume f2n r m) = frameRequested m"
  "pitchSetupRef (updatePitch_resume f2n r m) = pitchSetupRef m"
  by (simp_all add: updatePitch_resume_def Let_def split: prod.split)

lemma monitor_step_one_request:
  "one_request m \<Longrightarrow> one_request (monitor_step props f2n e m)"
proof (cases e)
  case (SetupDone sr smp)
  assume a: "one_request m"
  then have "one_request (setupConnection props sr m)"
    by (simp add: one_request_def setupConnection_def)
  then show ?thesis using SetupDone by (simp add: renderFrame_one_request)
next
  case (AnimationFrame smp)
  assume a: "one_request m"
  then have "one_request (m\<lparr>frameRequested := False\<rparr>)" by (simp add: one_request_def)
  then show ?thesis using AnimationFrame a by (simp add: renderFrame_one_request)
next
  case (Response r)
  assume a: "one_request m"
  then show ?thesis using Response
    by (cases "calls m") (simp_all add: one_request_def updatePitch_resume_fields)
next
  case Rejection
  assume a: "one_request m"
  then show ?thesis using Rejection
    by (cases "calls m") (simp_all add: one_request_def)
next
  case Cleanup
  assume a: "one_request m"
  then show ?thesis using Cleanup by (simp add: one_request_def cleanup_def)
next
  case TimeoutElapsed
  assume a: "one_request m"
  then show ?thesis using TimeoutElapsed
    by (cases "timeouts m") (simp_all add: one_request_def)
qed

lemma monitor_run_one_request:
  "one_request m \<Longrightarrow> one_request (monitor_run props f2n evs m)"
  unfolding monitor_run_def
  by (induction evs arbitrary: m) (simp_all add: monitor_step_one_request)

lemma pending_cleared_only_by_response:
  assumes "pendingRef m" and "\<not> pendingRef (monitor_step props f2n e m)"
  shows "\<exists>r q qs. e = Response r \<and> calls m = q # qs \<and>
           monitor_step props f2n e m = updatePitch_resume f2n r (m\<lparr>calls := qs\<rparr>)"
proof (cases e)
  case (SetupDone sr smp)
  then show ?thesis using assms
    by (simp add: renderFrame_def updatePitch_def setupConnection_def split: if_splits)
next
  case (AnimationFrame smp)
  then show ?thesis using assms
    by (simp add: renderFrame_def updatePitch_def split: if_splits)
next
  case (Response r)
  then show ?thesis using assms by (cases "calls m") auto
next
  case Rejection
  then show ?thesis using assms by (cases "calls m") auto
next
  case Cleanup
  then show ?thesis using assms by (simp add: cleanup_def)
next
  case TimeoutElapsed
  then show ?thesis using assms by (cases "timeouts m") simp_all
qed

text \<open>
  C2: from a state with at most one unanswered request (as at mount), whatever events
  follow, at most one \<^verbatim>\<open>getPitch\<close> request is outstanding, and \<^verbatim>\<open>pending\<close> is set while it
  is; a tick while \<^verbatim>\<open>pending\<close> is set changes nothing, so it issues no request; a tick
  that issues a request found \<^verbatim>\<open>pending\<close> clear and has set it; and \<^verbatim>\<open>pending\<close> goes
  from set to clear only in the continuation that processes the response to the
  outstanding request.
\<close>

theorem C2_one_outstanding_request:
  "(one_request m \<longrightarrow>
      length (calls (monitor_run props f2n evs m)) \<le> 1 \<and>
      (calls (monitor_run props f2n evs m) \<noteq> [] \<longrightarrow> pendingRef (monitor_run props f2n evs m))) \<and>
   (pendingRef m \<longrightarrow> updatePitch props samples m = m) \<and>
   (calls (updatePitch props samples m) \<noteq> calls m \<longrightarrow>
      \<not> pendingRef m \<and> pendingRef (updatePitch props samples m) \<and>
      (\<exists>q. calls (updatePitch props samples m) = calls m @ [q])) \<and>
   (pendingRef m \<and> \<not> pendingRef (monitor_step props f2n e m) \<longrightarrow>
      (\<exists>r q qs. e = Response r \<and> calls m = q # qs \<and>
         monitor_step props f2n e m = updatePitch_resume f2n r (m\<lparr>calls := qs\<rparr>)))"
proof -
  have a: "one_request m \<longrightarrow>
      length (calls (monitor_run props f2n evs m)) \<le> 1 \<and>
      (calls (monitor_run props f2n evs m) \<noteq> [] \<longrightarrow> pendingRef (monitor_run props f2n evs m))"
    using monitor_run_one_request [of m props f2n evs] by (simp add: one_request_def)
  have b: "pendingRef m \<longrightarrow> updatePitch props samples m = m"
    by (simp add: updatePitch_pending)
  have c: "calls (updatePitch props samples m) \<noteq> calls m \<longrightarrow>
      \<not> pendingRef m \<and> pendingRef (updatePitch props samples m) \<and>
      (\<exists>q. calls (updatePitch props samples m) = calls m @ [q])"
    using updatePitch_calls [of props samples m] updatePitch_sets_pending [of props samples m]
    by blast
  have d: "pendingRef m \<and> \<not> pendingRef (monitor_step props f2n e m) \<longrightarrow>
      (\<exists>r q qs. e = Response r \<and> calls m = q # qs \<and>
         monitor_step props f2n e m = updatePitch_resume f2n r (m\<lparr>calls := qs\<rparr>))"
    using pending_cleared_only_by_response [of m props f2n e] by blast
  from a b c d show ?thesis by blast
qed


theorem C2_one_outstanding_request_witness:
  "one_request monitor_init \<and>
   length (calls (monitor_run props0 noteFromC
            [SetupDone 44100 [1, 2], AnimationFrame [3, 4], AnimationFrame [5, 6]] monitor_init)) \<le> 1 \<and>
   calls (monitor_run props0 noteFromC
            [SetupDone 44100 [1, 2], AnimationFrame [3, 4], AnimationFrame [5, 6]] monitor_init)
     = [([1, 2], 44100, 0.5, 0.5)] \<and>
   pendingRef (monitor_run props0 noteFromC [SetupDone 44100 [1, 2]] monitor_init) \<and>
   updatePitch props0 [3, 4] (monitor_run props0 noteFromC [SetupDone 44100 [1, 2]] monitor_init) =
     monitor_run props0 noteFromC [SetupDone 44100 [1, 2]] monitor_init"
proof -
  have init: "one_request monitor_init"
    by (simp add: one_request_def monitor_init_def)
  let ?evs = "[SetupDone 44100 [1, 2], AnimationFrame [3, 4], AnimationFrame [5, 6]]"
  let ?m1 = "monitor_run props0 noteFromC [SetupDone 44100 [1, 2]] monitor_init"
  have bound: "length (calls (monitor_run props0 noteFromC ?evs monitor_init)) \<le> 1"
    using C2_one_outstanding_request [of monitor_init props0 noteFromC ?evs "[]" Cleanup]
      init by blast
  have p1: "pendingRef ?m1"
    by (simp add: monitor_run_def monitor_init_def props0_def renderFrame_def setupConnection_def
        updatePitch_def getFloatTimeDomainData_def Let_def)
  have tick: "updatePitch props0 [3, 4] ?m1 = ?m1"
    using C2_one_outstanding_request [of ?m1 props0 noteFromC "[]" "[3, 4]" Cleanup] p1 by blast
  have a: "calls (monitor_run props0 noteFromC ?evs monitor_init) = [([1, 2], 44100, 0.5, 0.5)]"
    by (simp add: monitor_run_def monitor_init_def props0_def renderFrame_def setupConnection_def
        updatePitch_def getFloatTimeDomainData_def Let_def)
  from init bound a p1 tick show ?thesis by blast
qed

subsection \<open>Ticks and the capture context\<close>

lemma pending_without_call_stays:
  "pendingRef m \<Longrightarrow> calls m = [] \<Longrightarrow>
   pendingRef (monitor_run props f2n evs m) \<and> calls (monitor_run props f2n evs m) = []"
proof (induction evs arbitrary: m)
  case Nil
  then show ?case by (simp add: monitor_run_def)
next
  case (Cons e evs)
  have "pendingRef (monitor_step props f2n e m) \<and> calls (monitor_step props f2n e m) = []"
    using Cons.prems
    by (cases e)
       (simp_all add: renderFrame_def updatePitch_def setupConnection_def cleanup_def
          split: list.split)
  then show ?case
    using Cons.IH [of "monitor_step props f2n e m"] by (simp add: monitor_run_def)
qed













subsection \<open>Disabling the monitor\<close>













section \<open>Properties of the animation engine\<close>

lemma random_index_in_range:
  assumes "unit_draws rnd" and "0 < n"
  shows "0 \<le> \<lfloor>p_random rnd k 0 (real n)\<rfloor> \<and> \<lfloor>p_random rnd k 0 (real n)\<rfloor> < int n"
proof -
  from assms(1) have u: "0 \<le> rnd k" "rnd k < 1" by (simp_all add: unit_draws_def)
  have v: "p_random rnd k 0 (real n) = rnd k * real n" by (simp add: p_random_def)
  have "0 \<le> rnd k * real n" using u by simp
  moreover have "rnd k * real n < real n" using u assms(2) by simp
  ultimately show ?thesis unfolding v by (simp add: floor_less_iff)
qed

lemma availableLeaves_distinct: "distinct (availableLeaves c ls)"
  by (simp add: availableLeaves_def)

lemma availableLeaves_set:
  "set (availableLeaves c ls) =
     {i. i < length ls \<and> \<not> isUsed (ls ! i) \<and> (c = None \<or> Some (colorName (ls ! i)) = c)}"
  by (auto simp: availableLeaves_def)

lemma remove_nth_set:
  assumes "distinct av" and "k < length av"
  shows "set (take k av @ drop (Suc k) av) = set av - {av ! k}"
    and "distinct (take k av @ drop (Suc k) av)"
    and "length (take k av @ drop (Suc k) av) = length av - 1"
proof -
  have av: "av = take k av @ av ! k # drop (Suc k) av"
    using assms(2) by (simp add: id_take_nth_drop)
  from assms(1) have d: "distinct (take k av @ av ! k # drop (Suc k) av)"
    using av by simp
  then show "distinct (take k av @ drop (Suc k) av)" by auto
  have "set av = set (take k av @ av ! k # drop (Suc k) av)" using av by simp
  then show "set (take k av @ drop (Suc k) av) = set av - {av ! k}"
    using d by auto
  show "length (take k av @ drop (Suc k) av) = length av - 1"
    using assms(2) by simp
qed

lemma fly_loop_selects:
  assumes "unit_draws rnd"
  shows "n \<le> length av \<Longrightarrow> distinct av \<Longrightarrow> \<forall>i\<in>set av. i < length (leaves s) \<and> \<not> isUsed (leaves s ! i) \<Longrightarrow>
    \<exists>s' sel bs. fly_loop rnd n av s = Inr s' \<and>
       length sel = n \<and> distinct sel \<and> set sel \<subseteq> set av \<and>
       length (leaves s') = length (leaves s) \<and>
       (\<forall>i<length (leaves s). leaves s' ! i =
          (if i \<in> set sel then (leaves s ! i)\<lparr>isUsed := True\<rparr> else leaves s ! i)) \<and>
       birds s' = birds s @ bs \<and> map origin bs = map (leaf_origin (leaves s)) sel \<and>
       looping s' = looping s \<and> flightInterval s' = flightInterval s \<and>
       intervals s' = intervals s \<and> nextTimer s' = nextTimer s"
proof (induction n arbitrary: av s)
  case 0
  show ?case by (rule exI [of _ s], rule exI [of _ "[]"], rule exI [of _ "[]"]) simp
next
  case (Suc n)
  define index where "index = \<lfloor>p_random rnd (rpos s) 0 (real (length av))\<rfloor>"
  have pos: "0 < length av" using Suc.prems(1) by (cases av) simp_all
  from random_index_in_range [OF assms pos, of "rpos s"]
  have ir: "0 \<le> index" "index < int (length av)" by (simp_all add: index_def)
  define k where "k = nat index"
  have k: "k < length av" using ir by (simp add: k_def)
  define l where "l = av ! k"
  have l_in: "l \<in> set av" using k by (simp add: l_def)
  then have l_lt: "l < length (leaves s)" and l_unused: "\<not> isUsed (leaves s ! l)"
    using Suc.prems(3) by simp_all
  define leaf where "leaf = leaves s ! l"
  define b where "b = new_Bird rnd (rpos s + 1) (x leaf) (y leaf) (color leaf)"
  define s1 where "s1 = s\<lparr>leaves := (leaves s)[l := leaf\<lparr>isUsed := True\<rparr>],
                       birds := birds s @ [b], rpos := rpos s + 3\<rparr>"
  define av1 where "av1 = take k av @ drop (Suc k) av"
  have unfold: "fly_loop rnd (Suc n) av s = fly_loop rnd n av1 s1"
    using ir by (simp add: Let_def index_def [symmetric] k_def [symmetric] l_def [symmetric]
        leaf_def [symmetric] b_def s1_def av1_def)
  from remove_nth_set [OF Suc.prems(2) k]
  have av1_set: "set av1 = set av - {l}" and av1_d: "distinct av1"
    and av1_len: "length av1 = length av - 1"
    by (simp_all add: av1_def l_def)
  have n_le: "n \<le> length av1" using Suc.prems(1) av1_len by simp
  have s1_leaves: "leaves s1 = (leaves s)[l := leaf\<lparr>isUsed := True\<rparr>]"
    by (simp add: s1_def)
  have av1_ok: "\<forall>i\<in>set av1. i < length (leaves s1) \<and> \<not> isUsed (leaves s1 ! i)"
    using Suc.prems(3) av1_set by (auto simp: s1_leaves)
  from Suc.IH [OF n_le av1_d av1_ok]
  obtain s' sel bs where
    r: "fly_loop rnd n av1 s1 = Inr s'"
    and sel: "length sel = n" "distinct sel" "set sel \<subseteq> set av1"
    and len: "length (leaves s') = length (leaves s1)"
    and lv: "\<forall>i<length (leaves s1). leaves s' ! i =
          (if i \<in> set sel then (leaves s1 ! i)\<lparr>isUsed := True\<rparr> else leaves s1 ! i)"
    and bd: "birds s' = birds s1 @ bs" "map origin bs = map (leaf_origin (leaves s1)) sel"
    and rest: "looping s' = looping s1" "flightInterval s' = flightInterval s1"
      "intervals s' = intervals s1" "nextTimer s' = nextTimer s1"
    by blast
  have l_notin: "l \<notin> set sel" using sel(3) av1_set by auto
  have orig_same: "leaf_origin (leaves s1) i = leaf_origin (leaves s) i" for i
    using l_lt by (cases "i = l") (simp_all add: leaf_origin_def s1_leaves leaf_def)
  have ob: "origin b = leaf_origin (leaves s) l"
    by (simp add: origin_def b_def new_Bird_def leaf_origin_def leaf_def)
  have 1: "fly_loop rnd (Suc n) av s = Inr s'" using unfold r by simp
  have 2: "length (l # sel) = Suc n" using sel by simp
  have 3: "distinct (l # sel)" using sel l_notin by simp
  have 4: "set (l # sel) \<subseteq> set av" using sel(3) av1_set l_in by auto
  have 5: "length (leaves s') = length (leaves s)" using len by (simp add: s1_leaves)
  have 6: "\<forall>i<length (leaves s). leaves s' ! i =
          (if i \<in> set (l # sel) then (leaves s ! i)\<lparr>isUsed := True\<rparr> else leaves s ! i)"
  proof (intro allI impI)
    fix i assume i: "i < length (leaves s)"
    then have "leaves s' ! i =
          (if i \<in> set sel then (leaves s1 ! i)\<lparr>isUsed := True\<rparr> else leaves s1 ! i)"
      using lv by (simp add: s1_leaves)
    then show "leaves s' ! i =
          (if i \<in> set (l # sel) then (leaves s ! i)\<lparr>isUsed := True\<rparr> else leaves s ! i)"
      using i l_notin by (cases "i = l") (auto simp: s1_leaves leaf_def)
  qed
  have 7: "birds s' = birds s @ (b # bs)" using bd(1) by (simp add: s1_def)
  have 8: "map origin (b # bs) = map (leaf_origin (leaves s)) (l # sel)"
    using bd(2) ob orig_same by simp
  have 9: "looping s' = looping s \<and> flightInterval s' = flightInterval s \<and>
       intervals s' = intervals s \<and> nextTimer s' = nextTimer s"
    using rest by (simp add: s1_def)
  from 1 2 3 4 5 6 7 8 9 show ?case by blast
qed


subsection \<open>The render step and \<^verbatim>\<open>loop()\<close>\<close>

lemma draw_birds_filter:
  "i \<le> length bs \<Longrightarrow>
   draw_birds i bs = filter (\<lambda>b. \<not> isOutOfBounds b) (map Bird_update (take i bs)) @ drop i bs"
proof (induction i arbitrary: bs)
  case 0
  then show ?case by simp
next
  case (Suc i)
  then have i: "i < length bs" by simp
  define bs1 where "bs1 = bs[i := Bird_update (bs ! i)]"
  have t: "take i bs1 = take i bs" and d: "drop (Suc i) bs1 = drop (Suc i) bs"
    and n: "bs1 ! i = Bird_update (bs ! i)" and l: "length bs1 = length bs"
    using i by (simp_all add: bs1_def)
  have ts: "take (Suc i) bs = take i bs @ [bs ! i]"
    using i by (simp add: take_Suc_conv_app_nth)
  show ?case
  proof (cases "isOutOfBounds (Bird_update (bs ! i))")
    case True
    have "draw_birds (Suc i) bs = draw_birds i (take i bs @ drop (Suc i) bs)"
      using True by (simp add: Let_def bs1_def [symmetric] n t d)
    also have "\<dots> = filter (\<lambda>b. \<not> isOutOfBounds b) (map Bird_update (take i bs)) @ drop (Suc i) bs"
      using i by (subst Suc.IH) (simp_all add: min_def)
    finally show ?thesis using True by (simp add: ts)
  next
    case False
    have "draw_birds (Suc i) bs = draw_birds i bs1"
      using False by (simp add: Let_def bs1_def [symmetric] n)
    also have "\<dots> = filter (\<lambda>b. \<not> isOutOfBounds b) (map Bird_update (take i bs1)) @ drop i bs1"
      using i l by (subst Suc.IH) simp_all
    also have "drop i bs1 = Bird_update (bs ! i) # drop (Suc i) bs"
      using i l n d by (metis Cons_nth_drop_Suc)
    finally show ?thesis using False by (simp add: ts t)
  qed
qed

lemma p_draw_birds:
  "birds (p_draw s) = filter (\<lambda>b. \<not> isOutOfBounds b) (map Bird_update (birds s))"
  by (simp add: p_draw_def Let_def draw_birds_filter)

lemma p_draw_fields:
  "leaves (p_draw s) = leaves s" "flightInterval (p_draw s) = flightInterval s"
  "intervals (p_draw s) = intervals s" "nextTimer (p_draw s) = nextTimer s"
  "looping (p_draw s) = (looping s \<and> birds (p_draw s) \<noteq> [])"
  by (auto simp: p_draw_def Let_def)

lemma p5_draw_fields:
  "leaves (p5_draw due s) = leaves s" "flightInterval (p5_draw due s) = flightInterval s"
  "intervals (p5_draw due s) = intervals s" "nextTimer (p5_draw due s) = nextTimer s"
  by (simp_all add: p5_draw_def p_draw_fields)

lemma p_loop_fields:
  "leaves (p_loop due s) = leaves s" "flightInterval (p_loop due s) = flightInterval s"
  "intervals (p_loop due s) = intervals s" "nextTimer (p_loop due s) = nextTimer s"
  by (simp_all add: p_loop_def p5_draw_fields)


lemma p_loop_looping:
  "\<not> looping s \<Longrightarrow> looping (p_loop due s) = (\<not> due \<or> birds (p_loop due s) \<noteq> [])"
  by (simp add: p_loop_def p5_draw_def p_draw_fields)

lemma fly_loop_fields:
  "fly_loop rnd n av s = Inr s1 \<Longrightarrow>
   looping s1 = looping s \<and> intervals s1 = intervals s \<and>
   flightInterval s1 = flightInterval s \<and> nextTimer s1 = nextTimer s"
proof (induction n arbitrary: av s)
  case 0
  then show ?case by simp
next
  case (Suc n)
  then show ?case
    by (auto simp: Let_def split: if_splits dest!: Suc.IH)
qed

lemma fly_unfold:
  assumes "fly rnd c count due s = Inr s'"
  shows "\<exists>s1. fly_loop rnd (nat (min count (int (length (availableLeaves c (leaves s))))))
            (availableLeaves c (leaves s)) s = Inr s1 \<and>
          looping s1 = looping s \<and>
          s' = (if \<not> looping s then p_loop due s1 else s1)"
proof -
  from assms obtain s1 where
    r: "fly_loop rnd (nat (min count (int (length (availableLeaves c (leaves s))))))
          (availableLeaves c (leaves s)) s = Inr s1"
    and s': "s' = (if \<not> looping s1 then p_loop due s1 else s1)"
    by (auto simp: fly_def Let_def split: sum.splits)
  from fly_loop_fields [OF r] have "looping s1 = looping s" by simp
  with r s' show ?thesis by simp
qed

subsection \<open>Spawning\<close>

lemma fly_result:
  assumes "unit_draws rnd"
  shows "\<exists>s1 sel bs. fly rnd c count due s = Inr (if \<not> looping s then p_loop due s1 else s1) \<and>
     distinct sel \<and> set sel \<subseteq> set (availableLeaves c (leaves s)) \<and>
     length sel = nat (min count (int (length (availableLeaves c (leaves s))))) \<and>
     birds s1 = birds s @ bs \<and> map origin bs = map (leaf_origin (leaves s)) sel \<and>
     length (leaves s1) = length (leaves s) \<and>
     (\<forall>i<length (leaves s). leaves s1 ! i =
        (if i \<in> set sel then (leaves s ! i)\<lparr>isUsed := True\<rparr> else leaves s ! i)) \<and>
     looping s1 = looping s \<and> flightInterval s1 = flightInterval s \<and>
     intervals s1 = intervals s \<and> nextTimer s1 = nextTimer s"
proof -
  define av where "av = availableLeaves c (leaves s)"
  define n where "n = nat (min count (int (length av)))"
  have n: "n \<le> length av" by (simp add: n_def)
  have d: "distinct av" by (simp add: av_def availableLeaves_distinct)
  have ok: "\<forall>i\<in>set av. i < length (leaves s) \<and> \<not> isUsed (leaves s ! i)"
    by (simp add: av_def availableLeaves_set)
  from fly_loop_selects [OF assms n d ok]
  obtain s1 sel bs where
    r: "fly_loop rnd n av s = Inr s1"
    and sel: "length sel = n" "distinct sel" "set sel \<subseteq> set av"
    and len: "length (leaves s1) = length (leaves s)"
    and lv: "\<forall>i<length (leaves s). leaves s1 ! i =
          (if i \<in> set sel then (leaves s ! i)\<lparr>isUsed := True\<rparr> else leaves s ! i)"
    and bd: "birds s1 = birds s @ bs" "map origin bs = map (leaf_origin (leaves s)) sel"
    and rest: "looping s1 = looping s" "flightInterval s1 = flightInterval s"
      "intervals s1 = intervals s" "nextTimer s1 = nextTimer s"
    by blast
  have f: "fly rnd c count due s = Inr (if \<not> looping s then p_loop due s1 else s1)"
    using r rest(1) by (simp add: fly_def Let_def av_def [symmetric] n_def [symmetric])
  show ?thesis
    apply (rule exI [of _ s1], rule exI [of _ sel], rule exI [of _ bs])
    using f sel len lv bd rest by (simp add: av_def n_def)
qed


lemma unit_draws_0: "unit_draws rnd0"
  by (simp add: unit_draws_def rnd0_def)

lemma availableLeaves_sketch0:
  "availableLeaves (Some ''yellow'') (leaves sketch0) = [0, 2]"
  "availableLeaves (Some ''ash'') (leaves sketch0) = []"
  "availableLeaves None (leaves sketch0) = [0, 2]"
  by (simp_all add: availableLeaves_def sketch0_def yellow_leaf_def upt_rec)



subsection \<open>The leaf pool over time\<close>

lemma leaf_step_refl: "leaf_step a a"
  by (simp add: leaf_step_def)

lemma leaf_step_trans: "leaf_step a b \<Longrightarrow> leaf_step b c \<Longrightarrow> leaf_step a c"
  by (auto simp: leaf_step_def)

lemma pool_step_refl: "list_all2 leaf_step ls ls"
  by (simp add: list_all2_refl leaf_step_refl)

lemma pool_step_trans:
  "list_all2 leaf_step ls ls1 \<Longrightarrow> list_all2 leaf_step ls1 ls2 \<Longrightarrow> list_all2 leaf_step ls ls2"
  by (rule list_all2_trans [of leaf_step leaf_step leaf_step]) (auto intro: leaf_step_trans)

lemma pool_step_mark: "list_all2 leaf_step ls (ls[l := (ls ! l)\<lparr>isUsed := True\<rparr>])"
proof (cases "l < length ls")
  case True
  have "list_all2 leaf_step (ls[l := ls ! l]) (ls[l := (ls ! l)\<lparr>isUsed := True\<rparr>])"
    by (rule list_all2_update_cong) (simp_all add: pool_step_refl leaf_step_def)
  then show ?thesis by simp
next
  case False
  then show ?thesis by (simp add: list_update_beyond pool_step_refl)
qed

lemma pool_step_usedCount:
  "list_all2 leaf_step ls ls' \<Longrightarrow> usedCount ls \<le> usedCount ls'"
  unfolding usedCount_def
  by (induction rule: list_all2_induct) (auto simp: leaf_step_def)

lemma usedCount_le_length: "usedCount ls \<le> length ls"
  by (simp add: usedCount_def)

lemma fly_loop_pool:
  "fly_loop rnd n av s = Inr s' \<Longrightarrow> list_all2 leaf_step (leaves s) (leaves s')"
proof (induction n arbitrary: av s)
  case 0
  then show ?case by (simp add: pool_step_refl)
next
  case (Suc n)
  define index where "index = \<lfloor>p_random rnd (rpos s) 0 (real (length av))\<rfloor>"
  define l where "l = av ! nat index"
  define s1 where "s1 = s\<lparr>leaves := (leaves s)[l := (leaves s ! l)\<lparr>isUsed := True\<rparr>],
      birds := birds s @ [new_Bird rnd (rpos s + 1) (x (leaves s ! l)) (y (leaves s ! l))
                            (color (leaves s ! l))],
      rpos := rpos s + 3\<rparr>"
  from Suc.prems have ok: "0 \<le> index \<and> index < int (length av)"
    by (simp add: Let_def index_def split: if_splits)
  with Suc.prems
  have "fly_loop rnd n (take (nat index) av @ drop (Suc (nat index)) av) s1 = Inr s'"
    by (simp add: Let_def index_def [symmetric] l_def s1_def)
  from Suc.IH [OF this] have "list_all2 leaf_step (leaves s1) (leaves s')" .
  moreover have "list_all2 leaf_step (leaves s) (leaves s1)"
    by (simp add: s1_def pool_step_mark)
  ultimately show ?case by (rule pool_step_trans [rotated])
qed

lemma fly_pool: "fly rnd c count due s = Inr s' \<Longrightarrow> list_all2 leaf_step (leaves s) (leaves s')"
proof -
  assume "fly rnd c count due s = Inr s'"
  from fly_unfold [OF this] obtain s1 where
    r: "fly_loop rnd (nat (min count (int (length (availableLeaves c (leaves s))))))
          (availableLeaves c (leaves s)) s = Inr s1"
    and s': "s' = (if \<not> looping s then p_loop due s1 else s1)"
    by blast
  from fly_loop_pool [OF r] show ?thesis by (simp add: s' p_loop_fields)
qed

lemma frame_fields:
  "leaves (frame due s) = leaves s" "flightInterval (frame due s) = flightInterval s"
  "intervals (frame due s) = intervals s" "nextTimer (frame due s) = nextTimer s"
  by (simp_all add: frame_def p5_draw_fields)

lemma startRandomFlight_leaves: "leaves (fst (startRandomFlight c count s)) = leaves s"
  by (simp add: startRandomFlight_def setInterval_def clearInterval_def Let_def split: option.split)

lemma cancel_leaves: "leaves (cancel s) = leaves s"
  by (simp add: cancel_def clearInterval_def split: option.split)

lemma exec_pool: "exec rnd e s = Inr s' \<Longrightarrow> list_all2 leaf_step (leaves s) (leaves s')"
proof (cases e)
  case (Fly c count due)
  assume "exec rnd e s = Inr s'"
  then show ?thesis using Fly by (simp add: fly_pool)
next
  case (StartRandomFlight c count)
  assume "exec rnd e s = Inr s'"
  then show ?thesis using StartRandomFlight
    by (auto simp: startRandomFlight_leaves pool_step_refl)
next
  case Cancel
  assume "exec rnd e s = Inr s'"
  then show ?thesis using Cancel by (auto simp: cancel_leaves pool_step_refl)
next
  case (Timer h due)
  assume "exec rnd e s = Inr s'"
  then show ?thesis using Timer
    by (auto simp: timer_fire_def pool_step_refl fly_pool split: option.splits)
next
  case (Frame due)
  assume "exec rnd e s = Inr s'"
  then show ?thesis using Frame by (auto simp: frame_fields pool_step_refl)
qed

lemma run_pool: "run rnd evs s = Inr s' \<Longrightarrow> list_all2 leaf_step (leaves s) (leaves s')"
proof (induction evs arbitrary: s)
  case Nil
  then show ?case by (simp add: pool_step_refl)
next
  case (Cons e evs)
  then obtain s1 where 1: "exec rnd e s = Inr s1" and 2: "run rnd evs s1 = Inr s'"
    by (auto split: sum.splits)
  from exec_pool [OF 1] Cons.IH [OF 2] show ?case by (rule pool_step_trans)
qed

lemma exec_total: "unit_draws rnd \<Longrightarrow> \<exists>s'. exec rnd e s = Inr s'"
proof (cases e)
  case (Fly c count due)
  assume "unit_draws rnd"
  from fly_result [OF this, of c count due s] show ?thesis using Fly by auto
next
  case (Timer h due)
  assume u: "unit_draws rnd"
  show ?thesis
  proof (cases "map_of (intervals s) h")
    case None
    then show ?thesis using Timer by (simp add: timer_fire_def)
  next
    case (Some cb)
    obtain c count delay where cb: "cb = ((c, count), delay)" by (cases cb) auto
    from fly_result [OF u, of c count due s] show ?thesis
      using Timer Some cb by (auto simp: timer_fire_def)
  qed
qed simp_all

lemma run_total: "unit_draws rnd \<Longrightarrow> \<exists>s'. run rnd evs s = Inr s'"
proof (induction evs arbitrary: s)
  case Nil
  then show ?case by simp
next
  case (Cons e evs)
  from exec_total [OF Cons.prems, of e s] obtain s1 where 1: "exec rnd e s = Inr s1" ..
  from Cons.IH [OF Cons.prems, of s1] show ?case using 1 by simp
qed

subsection \<open>Setup\<close>

lemma leafColors_colors: "k < length colors \<Longrightarrow> \<exists>rgb. leafColors (colors ! k) = Some rgb"
proof -
  assume "k < length colors"
  then have "k < 12" by (simp add: colors_def)
  then have "k = 0 \<or> k = 1 \<or> k = 2 \<or> k = 3 \<or> k = 4 \<or> k = 5 \<or> k = 6 \<or> k = 7 \<or> k = 8 \<or>
      k = 9 \<or> k = 10 \<or> k = 11"
    by arith
  then show ?thesis
    by (elim disjE) (simp_all add: colors_def leafColors_def)
qed

lemma generateLeaves_loop_result:
  assumes "unit_draws rnd"
  shows "\<exists>s' new. generateLeaves_loop rnd ps s = Inr s' \<and>
     leaves s' = leaves s @ new \<and> length new = length ps \<and> usedCount new = 0 \<and>
     map (\<lambda>l. (x l, y l)) new = map (\<lambda>p. (x p, y p)) ps \<and>
     birds s' = birds s \<and> looping s' = looping s \<and> flightInterval s' = flightInterval s \<and>
     intervals s' = intervals s \<and> nextTimer s' = nextTimer s"
proof (induction ps arbitrary: s)
  case Nil
  show ?case by (simp add: usedCount_def)
next
  case (Cons pos ps)
  define index where "index = \<lfloor>p_random rnd (rpos s) 0 (real (length colors))\<rfloor>"
  have "0 < length colors" by (simp add: colors_def)
  from random_index_in_range [OF assms this, of "rpos s"]
  have ir: "0 \<le> index" "index < int (length colors)" by (simp_all add: index_def)
  then have "nat index < length colors" by simp
  from leafColors_colors [OF this] obtain rgb where rgb: "leafColors (colors ! nat index) = Some rgb" ..
  define leaf where "leaf = \<lparr>x = x pos, y = y pos, leaf_size = p_random rnd (rpos s + 1) 12 24,
                           color = rgb, colorName = colors ! nat index, isUsed = False\<rparr>"
  define s1 where "s1 = s\<lparr>leaves := leaves s @ [leaf], rpos := rpos s + 2\<rparr>"
  have unfold: "generateLeaves_loop rnd (pos # ps) s = generateLeaves_loop rnd ps s1"
    using ir rgb by (simp add: Let_def index_def [symmetric] s1_def leaf_def)
  from Cons.IH [of s1] obtain s' new where
    r: "generateLeaves_loop rnd ps s1 = Inr s'"
    and l: "leaves s' = leaves s1 @ new" "length new = length ps" "usedCount new = 0"
      "map (\<lambda>l. (x l, y l)) new = map (\<lambda>p. (x p, y p)) ps"
    and rest: "birds s' = birds s1" "looping s' = looping s1" "flightInterval s' = flightInterval s1"
     "intervals s' = intervals s1" "nextTimer s' = nextTimer s1"
    by blast
  show ?case
    apply (rule exI [of _ s'], rule exI [of _ "leaf # new"])
    using unfold r l rest by (simp add: s1_def usedCount_def leaf_def)
qed

lemma p_setup_result:
  assumes "unit_draws rnd"
  shows "\<exists>s0. p_setup rnd = Inr s0 \<and> length (leaves s0) = 210 \<and> usedCount (leaves s0) = 0 \<and>
     birds s0 = [] \<and> \<not> looping s0 \<and> flightInterval s0 = None \<and> intervals s0 = []"
proof -
  let ?init = "\<lparr>leaves = [], birds = [], flightInterval = None, looping = False, intervals = [],
        nextTimer = 1, rpos = 0\<rparr>"
  let ?ps = "generateLeafPositions (p_width / 2) (p_height - 260) 126 (- pi / 2) 6 []"
  from generateLeaves_loop_result [OF assms, of ?ps ?init]
  obtain s' new where r: "generateLeaves_loop rnd ?ps ?init = Inr s'"
    and l: "leaves s' = leaves ?init @ new" "length new = length ?ps" "usedCount new = 0"
    and rest: "birds s' = birds ?init" "looping s' = looping ?init"
      "flightInterval s' = flightInterval ?init" "intervals s' = intervals ?init"
    by blast
  have "length ?ps = 210" by (simp add: generateLeafPositions_length slotCount_6)
  with r l rest show ?thesis
    by (simp add: p_setup_def generateLeaves_def)
qed

lemma generateLeaves_loop_fields:
  "generateLeaves_loop rnd ps s = Inr s' \<Longrightarrow>
   intervals s' = intervals s \<and> flightInterval s' = flightInterval s"
proof (induction ps arbitrary: s)
  case Nil
  then show ?case by simp
next
  case (Cons pos ps)
  then show ?case
    by (auto simp: Let_def split: if_splits option.splits dest!: Cons.IH)
qed

lemma p_setup_controller_inv: "p_setup rnd = Inr s \<Longrightarrow> controller_inv s"
  by (auto simp: p_setup_def generateLeaves_def controller_inv_def dest!: generateLeaves_loop_fields)


text \<open>
  C5: setup generates 210 leaves, none of them used. Whatever calls, timers and frames a
  sketch then goes through, and under p5's contract they all complete, the pool keeps its
  size; each leaf is either as it was or as it was with \<^verbatim>\<open>isUsed\<close> set, so a used leaf
  stays used and nothing else of a leaf changes; the number of used leaves does not
  decrease and is at most the number of leaves.
\<close>

theorem C5_leaf_pool_fixed_used_monotone:
  "(unit_draws rnd \<longrightarrow>
      (\<exists>s0. p_setup rnd = Inr s0 \<and> length (leaves s0) = 210 \<and> usedCount (leaves s0) = 0)) \<and>
   (unit_draws rnd \<longrightarrow> (\<exists>s'. run rnd evs s = Inr s')) \<and>
   (run rnd evs s = Inr s' \<longrightarrow>
      length (leaves s') = length (leaves s) \<and>
      (\<forall>i<length (leaves s).
         (leaves s' ! i = leaves s ! i \<or> leaves s' ! i = (leaves s ! i)\<lparr>isUsed := True\<rparr>) \<and>
         (isUsed (leaves s ! i) \<longrightarrow> isUsed (leaves s' ! i))) \<and>
      usedCount (leaves s) \<le> usedCount (leaves s') \<and>
      usedCount (leaves s') \<le> length (leaves s'))"
proof -
  have a: "unit_draws rnd \<longrightarrow> (\<exists>s'. run rnd evs s = Inr s')"
    using run_total [of rnd evs s] by blast
  have b: "length (leaves s') = length (leaves s) \<and>
      (\<forall>i<length (leaves s).
         (leaves s' ! i = leaves s ! i \<or> leaves s' ! i = (leaves s ! i)\<lparr>isUsed := True\<rparr>) \<and>
         (isUsed (leaves s ! i) \<longrightarrow> isUsed (leaves s' ! i))) \<and>
      usedCount (leaves s) \<le> usedCount (leaves s') \<and>
      usedCount (leaves s') \<le> length (leaves s')" if r: "run rnd evs s = Inr s'"
  proof -
    from run_pool [OF r] have p: "list_all2 leaf_step (leaves s) (leaves s')" .
    then have 1: "length (leaves s') = length (leaves s)"
      by (simp add: list_all2_lengthD)
    have 2: "\<forall>i<length (leaves s).
         (leaves s' ! i = leaves s ! i \<or> leaves s' ! i = (leaves s ! i)\<lparr>isUsed := True\<rparr>) \<and>
         (isUsed (leaves s ! i) \<longrightarrow> isUsed (leaves s' ! i))"
    proof (intro allI impI)
      fix i assume "i < length (leaves s)"
      with p have "leaf_step (leaves s ! i) (leaves s' ! i)" by (rule list_all2_nthD)
      then show "(leaves s' ! i = leaves s ! i \<or> leaves s' ! i = (leaves s ! i)\<lparr>isUsed := True\<rparr>) \<and>
         (isUsed (leaves s ! i) \<longrightarrow> isUsed (leaves s' ! i))"
        by (auto simp: leaf_step_def)
    qed
    from 1 2 pool_step_usedCount [OF p] usedCount_le_length [of "leaves s'"]
    show ?thesis by blast
  qed
  have c: "unit_draws rnd \<longrightarrow>
      (\<exists>s0. p_setup rnd = Inr s0 \<and> length (leaves s0) = 210 \<and> usedCount (leaves s0) = 0)"
    using p_setup_result [of rnd] by blast
  from a b c show ?thesis by blast
qed

theorem C5_leaf_pool_fixed_used_monotone_witness:
  "unit_draws rnd0 \<and>
   (\<exists>s'. run rnd0 [Fly None 1 True, Frame True, Timer 1 False, Fly (Some ''yellow'') 5 False] sketch0 = Inr s' \<and>
      length (leaves s') = 3 \<and> isUsed (leaves s' ! 1) \<and> 1 \<le> usedCount (leaves s'))"
proof -
  let ?evs = "[Fly None 1 True, Frame True, Timer 1 False, Fly (Some ''yellow'') 5 False]"
  from C5_leaf_pool_fixed_used_monotone [of rnd0 ?evs sketch0] unit_draws_0
  obtain s' where r: "run rnd0 ?evs sketch0 = Inr s'" by blast
  note inst = C5_leaf_pool_fixed_used_monotone [of rnd0 ?evs sketch0 s']
  have l: "length (leaves s') = length (leaves sketch0)" using inst r by blast
  have u: "usedCount (leaves sketch0) \<le> usedCount (leaves s')" using inst r by blast
  have "1 < length (leaves sketch0)" and "isUsed (leaves sketch0 ! 1)"
    by (simp_all add: sketch0_def)
  then have k: "isUsed (leaves s' ! 1)" using inst r by blast
  have "usedCount (leaves sketch0) = 1" "length (leaves sketch0) = 3"
    by (simp_all add: usedCount_def sketch0_def yellow_leaf_def)
  with l u k r unit_draws_0 show ?thesis by auto
qed

subsection \<open>The frame loop\<close>

lemma fly_looping:
  assumes "fly rnd c count due s = Inr s'"
  shows "looping s' = (looping s \<or> \<not> due \<or> birds s' \<noteq> [])"
proof -
  from fly_unfold [OF assms] obtain s1 where
    l: "looping s1 = looping s" and s': "s' = (if \<not> looping s then p_loop due s1 else s1)"
    by blast
  show ?thesis
  proof (cases "looping s")
    case True
    then show ?thesis using l s' by simp
  next
    case False
    then have "\<not> looping s1" using l by simp
    from p_loop_looping [OF this, of due] show ?thesis using False s' by simp
  qed
qed

lemma fly_nothing_to_spawn:
  assumes "nat (min count (int (length (availableLeaves c (leaves s))))) = 0"
    and "birds s = []" and "\<not> looping s"
  shows "fly rnd c count True s = Inr s"
    and "fly rnd c count False s = Inr (s\<lparr>looping := True\<rparr>)"
    and "frame True (s\<lparr>looping := True\<rparr>) = s"
proof -
  have d: "p_draw (s\<lparr>looping := True\<rparr>) = s"
    using assms(2,3) by (cases s) (simp add: p_draw_def Let_def)
  show "fly rnd c count True s = Inr s"
    using assms d by (simp add: fly_def Let_def p_loop_def p5_draw_def)
  show "fly rnd c count False s = Inr (s\<lparr>looping := True\<rparr>)"
    using assms by (simp add: fly_def Let_def p_loop_def p5_draw_def)
  show "frame True (s\<lparr>looping := True\<rparr>) = s"
    using d by (simp add: frame_def p5_draw_def)
qed

lemma exec_resumes:
  assumes "exec rnd e s = Inr s'" and "\<not> looping s" and "looping s'"
  shows "(\<exists>c count due. e = Fly c count due) \<or>
         (\<exists>h due c count delay. e = Timer h due \<and>
            map_of (intervals s) h = Some ((c, count), delay))"
proof (cases e)
  case (Fly c count due)
  then show ?thesis by simp
next
  case (StartRandomFlight c count)
  then show ?thesis using assms
    by (auto simp: startRandomFlight_def setInterval_def clearInterval_def Let_def
        split: option.splits)
next
  case Cancel
  then show ?thesis using assms
    by (auto simp: cancel_def clearInterval_def split: option.splits)
next
  case (Timer h due)
  then show ?thesis using assms
    by (cases "map_of (intervals s) h") (auto simp: timer_fire_def)
next
  case (Frame due)
  then show ?thesis using assms by (auto simp: frame_def)
qed

text \<open>
  C7, as claimed: a spawn call that creates no bird leaves an idle loop idle, and the loop
  is active only while a bird exists. In the example sketch no ash leaf is unused and the
  loop is idle. \<^verbatim>\<open>fly('ash', 1)\<close>, called when p5 finds no frame due (within a frame
  interval of the last drawn frame), creates no bird, and the sketch is looping
  afterwards, with no bird.
\<close>

theorem C7_counterexample:
  "looping sketch0 = False \<and> birds sketch0 = [] \<and>
   fly rnd0 (Some ''ash'') 1 False sketch0 = Inr (sketch0\<lparr>looping := True\<rparr>) \<and>
   birds (sketch0\<lparr>looping := True\<rparr>) = [] \<and> looping (sketch0\<lparr>looping := True\<rparr>) = True"
proof -
  have "fly rnd0 (Some ''ash'') 1 False sketch0 = Inr (sketch0\<lparr>looping := True\<rparr>)"
    by (rule fly_nothing_to_spawn) (simp_all add: availableLeaves_sketch0, simp_all add: sketch0_def)
  then show ?thesis by (simp add: sketch0_def)
qed

text \<open>
  C7, amended: a render step updates every bird and removes those that have left the
  canvas; it leaves the loop running exactly when it was running and a bird remains, so the
  loop stops once the bird set is empty after a render step. A frame of the host runs a
  render step only on a looping sketch (and only when p5 finds the frame due), so an idle
  sketch stays as it is. On return from a spawn call the loop is running exactly if it was
  running before, or p5 found no frame due at the call, or a bird exists: a spawn call on
  an idle loop that draws its frame at once leaves the loop running only with a bird. So a
  spawn call that has nothing to spawn, on an idle sketch without birds, leaves the sketch
  idle and unchanged when the frame is due; when no frame is due it leaves the loop
  running with no bird, and the next render step stops it. Only a spawn call (direct, or
  from the campaign timer) turns an idle loop into a running one.
\<close>

theorem C7_frame_loop:
  "birds (p_draw s) = filter (\<lambda>b. \<not> isOutOfBounds b) (map Bird_update (birds s)) \<and>
   looping (p_draw s) = (looping s \<and> birds (p_draw s) \<noteq> []) \<and>
   frame due s = (if looping s \<and> due then p_draw s else s) \<and>
   (fly rnd c count due s = Inr s' \<longrightarrow> looping s' = (looping s \<or> \<not> due \<or> birds s' \<noteq> [])) \<and>
   (nat (min count (int (length (availableLeaves c (leaves s))))) = 0 \<and> birds s = [] \<and>
    \<not> looping s \<longrightarrow>
      fly rnd c count True s = Inr s \<and>
      fly rnd c count False s = Inr (s\<lparr>looping := True\<rparr>) \<and>
      frame True (s\<lparr>looping := True\<rparr>) = s) \<and>
   (exec rnd e s = Inr s' \<and> \<not> looping s \<and> looping s' \<longrightarrow>
      (\<exists>c count due. e = Fly c count due) \<or>
      (\<exists>h due c count delay. e = Timer h due \<and>
         map_of (intervals s) h = Some ((c, count), delay)))"
proof -
  have 1: "frame due s = (if looping s \<and> due then p_draw s else s)"
    by (simp add: frame_def p5_draw_def)
  have 2: "fly rnd c count due s = Inr s' \<longrightarrow>
      looping s' = (looping s \<or> \<not> due \<or> birds s' \<noteq> [])"
    using fly_looping [of rnd c count due s s'] by blast
  have 3: "nat (min count (int (length (availableLeaves c (leaves s))))) = 0 \<and> birds s = [] \<and>
    \<not> looping s \<longrightarrow>
      fly rnd c count True s = Inr s \<and>
      fly rnd c count False s = Inr (s\<lparr>looping := True\<rparr>) \<and>
      frame True (s\<lparr>looping := True\<rparr>) = s"
    using fly_nothing_to_spawn(1) [of count c s rnd] fly_nothing_to_spawn(2) [of count c s rnd]
      fly_nothing_to_spawn(3) [of count c s]
    by blast
  have 4: "exec rnd e s = Inr s' \<and> \<not> looping s \<and> looping s' \<longrightarrow>
      (\<exists>c count due. e = Fly c count due) \<or>
      (\<exists>h due c count delay. e = Timer h due \<and>
         map_of (intervals s) h = Some ((c, count), delay))"
    using exec_resumes [of rnd e s s'] by blast
  from 1 2 3 4 p_draw_birds [of s] p_draw_fields(5) [of s] show ?thesis by blast
qed

theorem C7_frame_loop_witness:
  "nat (min 1 (int (length (availableLeaves (Some ''ash'') (leaves sketch0))))) = 0 \<and>
   birds sketch0 = [] \<and> looping sketch0 = False \<and>
   fly rnd0 (Some ''ash'') 1 True sketch0 = Inr sketch0 \<and>
   fly rnd0 (Some ''ash'') 1 False sketch0 = Inr (sketch0\<lparr>looping := True\<rparr>) \<and>
   frame True (sketch0\<lparr>looping := True\<rparr>) = sketch0 \<and>
   frame True sketch0 = sketch0"
proof -
  note inst = C7_frame_loop [of sketch0 True rnd0 "Some ''ash''" 1 sketch0 "Frame True"]
  have a: "nat (min 1 (int (length (availableLeaves (Some ''ash'') (leaves sketch0))))) = 0"
    by (simp add: availableLeaves_sketch0)
  have b: "birds sketch0 = []" and c: "\<not> looping sketch0" by (simp_all add: sketch0_def)
  have d: "fly rnd0 (Some ''ash'') 1 True sketch0 = Inr sketch0 \<and>
      fly rnd0 (Some ''ash'') 1 False sketch0 = Inr (sketch0\<lparr>looping := True\<rparr>) \<and>
      frame True (sketch0\<lparr>looping := True\<rparr>) = sketch0"
    using inst a b c by blast
  have "frame True sketch0 = (if looping sketch0 \<and> True then p_draw sketch0 else sketch0)"
    using inst by blast
  then have e: "frame True sketch0 = sketch0" using c by simp
  have c': "looping sketch0 = False" using c by simp
  from a b c' d e show ?thesis by blast
qed

section \<open>Properties of the flight controller\<close>

lemma startRandomFlight_handle: "snd (startRandomFlight c count s) = cancel"
  by (simp add: startRandomFlight_def setInterval_def Let_def split: option.split)

lemma clear_current:
  "controller_inv s \<Longrightarrow> flightInterval s = Some h \<Longrightarrow> intervals (clearInterval h s) = []"
proof -
  assume inv: "controller_inv s" and f: "flightInterval s = Some h"
  then have "\<forall>e\<in>set (intervals s). fst e = h" by (simp add: controller_inv_def)
  then have "filter (\<lambda>e. fst e \<noteq> h) (intervals s) = []" by (simp add: filter_empty_conv)
  then show ?thesis by (simp add: clearInterval_def)
qed

lemma no_current: "controller_inv s \<Longrightarrow> flightInterval s = None \<Longrightarrow> intervals s = []"
  by (cases "intervals s") (auto simp: controller_inv_def)

lemma startRandomFlight_state:
  assumes "controller_inv s"
  shows "fst (startRandomFlight c count s) =
           s\<lparr>intervals := [(nextTimer s, (c, count), 1000)], nextTimer := Suc (nextTimer s),
             flightInterval := Some (nextTimer s)\<rparr>"
proof (cases "flightInterval s")
  case None
  with no_current [OF assms] show ?thesis
    by (simp add: startRandomFlight_def setInterval_def Let_def)
next
  case (Some h)
  with clear_current [OF assms Some] show ?thesis
    by (simp add: startRandomFlight_def setInterval_def Let_def clearInterval_def)
qed

lemma cancel_stops: "controller_inv s \<Longrightarrow> intervals (cancel s) = []"
  by (cases "flightInterval s") (simp_all add: cancel_def no_current clear_current)

lemma cancel_fields:
  "flightInterval (cancel s) = flightInterval s" "leaves (cancel s) = leaves s"
  "birds (cancel s) = birds s" "looping (cancel s) = looping s"
  by (simp_all add: cancel_def clearInterval_def split: option.split)

lemma teardown_stops: "controller_inv s \<Longrightarrow> intervals (teardown s) = []"
  by (cases "flightInterval s") (simp_all add: teardown_def no_current clear_current)

lemma fly_controller:
  "fly rnd c count due s = Inr s' \<Longrightarrow>
   intervals s' = intervals s \<and> flightInterval s' = flightInterval s \<and> nextTimer s' = nextTimer s"
proof -
  assume "fly rnd c count due s = Inr s'"
  from fly_unfold [OF this] obtain s1 where
    r: "fly_loop rnd (nat (min count (int (length (availableLeaves c (leaves s))))))
          (availableLeaves c (leaves s)) s = Inr s1"
    and s': "s' = (if \<not> looping s then p_loop due s1 else s1)"
    by blast
  from fly_loop_fields [OF r] show ?thesis by (simp add: s' p_loop_fields)
qed

lemma exec_controller_inv:
  "controller_inv s \<Longrightarrow> exec rnd e s = Inr s' \<Longrightarrow> controller_inv s'"
proof (cases e)
  case (Fly c count due)
  assume "controller_inv s" "exec rnd e s = Inr s'"
  then show ?thesis using Fly by (auto simp: controller_inv_def dest!: fly_controller)
next
  case (StartRandomFlight c count)
  assume "controller_inv s" "exec rnd e s = Inr s'"
  then show ?thesis using StartRandomFlight
    by (auto simp: startRandomFlight_state controller_inv_def)
next
  case Cancel
  assume "controller_inv s" "exec rnd e s = Inr s'"
  then show ?thesis using Cancel cancel_stops [of s]
    by (auto simp: controller_inv_def)
next
  case (Timer h due)
  assume "controller_inv s" "exec rnd e s = Inr s'"
  then show ?thesis using Timer
    by (auto simp: timer_fire_def controller_inv_def split: option.splits dest!: fly_controller)
next
  case (Frame due)
  assume "controller_inv s" "exec rnd e s = Inr s'"
  then show ?thesis using Frame by (auto simp: controller_inv_def frame_fields)
qed

lemma run_controller_inv:
  "controller_inv s \<Longrightarrow> run rnd evs s = Inr s' \<Longrightarrow> controller_inv s'"
proof (induction evs arbitrary: s)
  case Nil
  then show ?case by simp
next
  case (Cons e evs)
  from Cons.prems(2) obtain s1 where 1: "exec rnd e s = Inr s1" and 2: "run rnd evs s1 = Inr s'"
    by (auto split: sum.splits)
  from exec_controller_inv [OF Cons.prems(1) 1] have "controller_inv s1" .
  from Cons.IH [OF this 2] show ?case .
qed

lemma timer_fire_single:
  "intervals s = [(h, (c, count), delay)] \<Longrightarrow>
   timer_fire rnd h' due s = (if h' = h then fly rnd c count due s else Inr s)"
  by (simp add: timer_fire_def)


lemma startRandomFlight_campaign:
  assumes "controller_inv s"
  shows "fst (startRandomFlight c count s) =
       s\<lparr>intervals := [(nextTimer s, (c, count), 1000)], nextTimer := Suc (nextTimer s),
         flightInterval := Some (nextTimer s)\<rparr> \<and>
     timer_fire rnd h due (fst (startRandomFlight c count s)) =
       (if h = nextTimer s then fly rnd c count due (fst (startRandomFlight c count s))
        else Inr (fst (startRandomFlight c count s))) \<and>
     intervals (fst (startRandomFlight cB countB (fst (startRandomFlight c count s)))) =
       [(Suc (nextTimer s), (cB, countB), 1000)] \<and>
     intervals (snd (startRandomFlight c count s) (fst (startRandomFlight c count s))) = [] \<and>
     (run rnd evs (fst (startRandomFlight c count s)) = Inr s' \<longrightarrow>
        length (intervals s') \<le> 1 \<and> (\<forall>e\<in>set (intervals s'). flightInterval s' = Some (fst e)) \<and>
        intervals (snd (startRandomFlight c count s) s') = [])"
proof -
  let ?s1 = "fst (startRandomFlight c count s)"
  have st: "?s1 = s\<lparr>intervals := [(nextTimer s, (c, count), 1000)], nextTimer := Suc (nextTimer s),
         flightInterval := Some (nextTimer s)\<rparr>"
    using assms by (rule startRandomFlight_state)
  have i1: "intervals ?s1 = [(nextTimer s, (c, count), 1000)]" and n1: "nextTimer ?s1 = Suc (nextTimer s)"
    by (simp_all add: st)
  have inv1: "controller_inv ?s1" by (simp add: st controller_inv_def)
  have tf: "timer_fire rnd h due ?s1 =
       (if h = nextTimer s then fly rnd c count due ?s1 else Inr ?s1)"
    using timer_fire_single [OF i1, of rnd h due] .
  have ab: "intervals (fst (startRandomFlight cB countB ?s1)) = [(Suc (nextTimer s), (cB, countB), 1000)]"
    by (simp add: startRandomFlight_state [OF inv1] n1)
  have h0: "intervals (snd (startRandomFlight c count s) ?s1) = []"
    by (simp only: startRandomFlight_handle cancel_stops [OF inv1])
  have later: "length (intervals s') \<le> 1 \<and> (\<forall>e\<in>set (intervals s'). flightInterval s' = Some (fst e)) \<and>
        intervals (snd (startRandomFlight c count s) s') = []"
    if r: "run rnd evs ?s1 = Inr s'"
  proof -
    from run_controller_inv [OF inv1 r] have inv': "controller_inv s'" .
    then show ?thesis
      by (simp add: startRandomFlight_handle cancel_stops) (simp add: controller_inv_def)
  qed
  from st tf ab h0 later show ?thesis by blast
qed

text \<open>
  C6: in a sketch whose only registered timer, if any, is the one \<^verbatim>\<open>flightInterval\<close> holds
  (so in the sketch after setup, and after any events from there), \<^verbatim>\<open>startRandomFlight(color, count)\<close>
  removes the registered timer and registers one new interval of 1000 ms whose callback
  is \<^verbatim>\<open>fly(color, count)\<close>: afterwards that is the only timer, so a timer that fires calls
  \<^verbatim>\<open>fly\<close> with these arguments and no other handle fires anything. Starting B after A
  leaves B's timer alone. At most one timer is registered after any sequence of events. The
  returned handle, called at once or at any later time, leaves no timer registered, so the
  campaign it came from is stopped.
\<close>

theorem C6_startRandomFlight_single_campaign:
  "(p_setup rnd = Inr s \<longrightarrow> controller_inv s) \<and>
   (controller_inv s \<and> run rnd evs s = Inr s' \<longrightarrow> controller_inv s') \<and>
   (controller_inv s \<longrightarrow>
     fst (startRandomFlight c count s) =
       s\<lparr>intervals := [(nextTimer s, (c, count), 1000)], nextTimer := Suc (nextTimer s),
         flightInterval := Some (nextTimer s)\<rparr> \<and>
     timer_fire rnd h due (fst (startRandomFlight c count s)) =
       (if h = nextTimer s then fly rnd c count due (fst (startRandomFlight c count s))
        else Inr (fst (startRandomFlight c count s))) \<and>
     intervals (fst (startRandomFlight cB countB (fst (startRandomFlight c count s)))) =
       [(Suc (nextTimer s), (cB, countB), 1000)] \<and>
     intervals (snd (startRandomFlight c count s) (fst (startRandomFlight c count s))) = [] \<and>
     (run rnd evs (fst (startRandomFlight c count s)) = Inr s' \<longrightarrow>
        length (intervals s') \<le> 1 \<and> (\<forall>e\<in>set (intervals s'). flightInterval s' = Some (fst e)) \<and>
        intervals (snd (startRandomFlight c count s) s') = []))"
  using p_setup_controller_inv [of rnd s] run_controller_inv [of s rnd evs s']
    startRandomFlight_campaign [of s c count rnd h due cB countB evs s']
  by blast

lemma controller_inv_sketch0: "controller_inv sketch0"
  by (simp add: controller_inv_def sketch0_def)

theorem C6_startRandomFlight_single_campaign_witness:
  "controller_inv sketch0 \<and>
   intervals (fst (startRandomFlight (Some ''yellow'') 1 sketch0)) = [(1, (Some ''yellow'', 1), 1000)] \<and>
   intervals (fst (startRandomFlight (Some ''ash'') 1 (fst (startRandomFlight (Some ''yellow'') 1 sketch0))))
     = [(2, (Some ''ash'', 1), 1000)] \<and>
   intervals (snd (startRandomFlight (Some ''yellow'') 1 sketch0)
                (fst (startRandomFlight (Some ''yellow'') 1 sketch0))) = []"
proof -
  note inst = C6_startRandomFlight_single_campaign
      [of rnd0 sketch0 "[]" sketch0 "Some ''yellow''" 1 1 True "Some ''ash''" 1,
       THEN conjunct2, THEN conjunct2, rule_format, OF controller_inv_sketch0]
  have n: "nextTimer sketch0 = 1" by (simp add: sketch0_def)
  have a: "intervals (fst (startRandomFlight (Some ''yellow'') 1 sketch0)) =
      [(1, (Some ''yellow'', 1), 1000)]"
    using inst [THEN conjunct1] by (simp add: n)
  have b: "intervals (fst (startRandomFlight (Some ''ash'') 1
      (fst (startRandomFlight (Some ''yellow'') 1 sketch0)))) = [(2, (Some ''ash'', 1), 1000)]"
    using inst [THEN conjunct2, THEN conjunct2, THEN conjunct1] by (simp add: n)
  have c: "intervals (snd (startRandomFlight (Some ''yellow'') 1 sketch0)
                (fst (startRandomFlight (Some ''yellow'') 1 sketch0))) = []"
    using inst [THEN conjunct2, THEN conjunct2, THEN conjunct2, THEN conjunct1] .
  from controller_inv_sketch0 a b c show ?thesis by blast
qed

subsection \<open>A campaign seen from the orchestrator\<close>

lemma exec_keeps_campaign:
  assumes "exec rnd e s = Inr s'" and "e \<noteq> Cancel" and "\<forall>c count. e \<noteq> StartRandomFlight c count"
  shows "intervals s' = intervals s \<and> flightInterval s' = flightInterval s"
proof (cases e)
  case (Fly c count due)
  then show ?thesis using assms(1) by (auto dest!: fly_controller)
next
  case (StartRandomFlight c count)
  then show ?thesis using assms(3) by simp
next
  case Cancel
  then show ?thesis using assms(2) by simp
next
  case (Timer h due)
  then show ?thesis using assms(1)
    by (auto simp: timer_fire_def split: option.splits dest!: fly_controller)
next
  case (Frame due)
  then show ?thesis using assms(1) by (auto simp: frame_fields)
qed

lemma run_keeps_campaign:
  "run rnd evs s = Inr s' \<Longrightarrow> \<forall>e\<in>set evs. hook_event e \<Longrightarrow> no_start evs \<Longrightarrow>
   intervals s' = intervals s \<and> flightInterval s' = flightInterval s"
proof (induction evs arbitrary: s)
  case Nil
  then show ?case by simp
next
  case (Cons e evs)
  from Cons.prems(1) obtain s1 where 1: "exec rnd e s = Inr s1" and 2: "run rnd evs s1 = Inr s'"
    by (auto split: sum.splits)
  have "hook_event e" using Cons.prems(2) by simp
  then have nc: "e \<noteq> Cancel" by auto
  have ns: "\<forall>c count. e \<noteq> StartRandomFlight c count" using Cons.prems(3) by (simp add: no_start_def)
  have rest: "\<forall>e\<in>set evs. hook_event e" "no_start evs"
    using Cons.prems(2,3) by (simp_all add: no_start_def)
  from exec_keeps_campaign [OF 1 nc ns] Cons.IH [OF 2 rest] show ?case by simp
qed

lemma exec_campaign_alive:
  assumes "controller_inv s" and "intervals s \<noteq> []" and "exec rnd e s = Inr s'" and "hook_event e"
  shows "intervals s' \<noteq> []"
proof (cases "\<exists>c count. e = StartRandomFlight c count")
  case True
  then show ?thesis using assms(1,3) by (auto simp: startRandomFlight_state)
next
  case False
  moreover have "e \<noteq> Cancel" using assms(4) by auto
  ultimately show ?thesis using exec_keeps_campaign [OF assms(3)] assms(2) by simp
qed

lemma run_campaign_alive:
  "controller_inv s \<Longrightarrow> intervals s \<noteq> [] \<Longrightarrow> run rnd evs s = Inr s' \<Longrightarrow>
   \<forall>e\<in>set evs. hook_event e \<Longrightarrow> controller_inv s' \<and> intervals s' \<noteq> []"
proof (induction evs arbitrary: s)
  case Nil
  then show ?case by simp
next
  case (Cons e evs)
  from Cons.prems(3) obtain s1 where 1: "exec rnd e s = Inr s1" and 2: "run rnd evs s1 = Inr s'"
    by (auto split: sum.splits)
  have h: "hook_event e" and hs: "\<forall>e\<in>set evs. hook_event e" using Cons.prems(4) by simp_all
  from exec_controller_inv [OF Cons.prems(1) 1] have i1: "controller_inv s1" .
  from exec_campaign_alive [OF Cons.prems(1,2) 1 h] have a1: "intervals s1 \<noteq> []" .
  from Cons.IH [OF i1 a1 2 hs] show ?case .
qed

lemma single_interval:
  assumes "controller_inv s" and "intervals s \<noteq> []"
  shows "\<exists>h c count delay. intervals s = [(h, (c, count), delay)] \<and> flightInterval s = Some h"
proof -
  from assms obtain e where e: "intervals s = [e]"
    by (cases "intervals s") (auto simp: controller_inv_def)
  obtain h c count delay where "e = (h, (c, count), delay)" by (cases e) auto
  with e assms(1) show ?thesis by (auto simp: controller_inv_def)
qed

text \<open>
  C10: the hook's \<^verbatim>\<open>startRandomFlight\<close> is the controller's with the returned handle
  dropped (and nothing without a controller), and the delayed callback of \<^verbatim>\<open>updatePitch\<close>
  calls just that. Under the events that code holding only the hook's result can cause
  (both wrappers, elapsing timers, frames), all of which complete under p5's contract: a
  running campaign stays registered with its arguments as long as no
  \<^verbatim>\<open>startRandomFlight\<close> is among them, so each elapse of its timer calls \<^verbatim>\<open>fly\<close> with them;
  and with \<^verbatim>\<open>startRandomFlight\<close> among them, some campaign is running afterwards, exactly
  one. The teardown of the component stops it.
\<close>

theorem C10_campaign_not_stoppable_from_hook:
  "useTreeAnimation_startRandomFlight True c count s = fst (startRandomFlight c count s) \<and>
   useTreeAnimation_startRandomFlight False c count s = s \<and>
   snd (delayed_trigger controller m s) =
     (case timeouts m of [] \<Rightarrow> s
      | (c1, count1) # ts \<Rightarrow> useTreeAnimation_startRandomFlight controller c1 count1 s) \<and>
   (unit_draws rnd \<longrightarrow> (\<exists>s1. run rnd evs s = Inr s1)) \<and>
   ((\<forall>e\<in>set evs. hook_event e) \<and> run rnd evs s = Inr s' \<longrightarrow>
      (no_start evs \<and> intervals s = [(h, (c, count), delay)] \<longrightarrow>
         intervals s' = [(h, (c, count), delay)] \<and> timer_fire rnd h due s' = fly rnd c count due s') \<and>
      (controller_inv s \<and> intervals s \<noteq> [] \<longrightarrow>
         (\<exists>h1 c1 count1 delay1. intervals s' = [(h1, (c1, count1), delay1)] \<and>
            flightInterval s' = Some h1))) \<and>
   (controller_inv s \<longrightarrow> intervals (teardown s) = [])"
proof -
  have 1: "useTreeAnimation_startRandomFlight True c count s = fst (startRandomFlight c count s)"
    and 2: "useTreeAnimation_startRandomFlight False c count s = s"
    by (simp_all add: useTreeAnimation_startRandomFlight_def)
  have 3: "snd (delayed_trigger controller m s) =
     (case timeouts m of [] \<Rightarrow> s
      | (c1, count1) # ts \<Rightarrow> useTreeAnimation_startRandomFlight controller c1 count1 s)"
    by (simp add: delayed_trigger_def split: list.split prod.split)
  have 4: "unit_draws rnd \<longrightarrow> (\<exists>s1. run rnd evs s = Inr s1)"
    using run_total [of rnd evs s] by blast
  have 5: "intervals s' = [(h, (c, count), delay)] \<and> timer_fire rnd h due s' = fly rnd c count due s'"
    if "\<forall>e\<in>set evs. hook_event e" "run rnd evs s = Inr s'" "no_start evs"
      "intervals s = [(h, (c, count), delay)]"
    using run_keeps_campaign [OF that(2) that(1) that(3)] that(4)
    by (simp add: timer_fire_single)
  have 6: "\<exists>h1 c1 count1 delay1. intervals s' = [(h1, (c1, count1), delay1)] \<and>
            flightInterval s' = Some h1"
    if "\<forall>e\<in>set evs. hook_event e" "run rnd evs s = Inr s'" "controller_inv s" "intervals s \<noteq> []"
    using run_campaign_alive [OF that(3) that(4) that(2) that(1)] single_interval by blast
  have 7: "controller_inv s \<longrightarrow> intervals (teardown s) = []"
    using teardown_stops by blast
  from 1 2 3 4 5 6 7 show ?thesis by blast
qed

theorem C10_campaign_not_stoppable_from_hook_witness:
  "unit_draws rnd0 \<and> no_start [Fly None 1 True, Timer 1 True, Frame True, Timer 1 False] \<and>
   list_all hook_event [Fly None 1 True, Timer 1 True, Frame True, Timer 1 False] \<and>
   (\<exists>s'. run rnd0 [Fly None 1 True, Timer 1 True, Frame True, Timer 1 False]
            (useTreeAnimation_startRandomFlight True (Some ''yellow'') 1 sketch0) = Inr s' \<and>
      intervals s' = [(1, (Some ''yellow'', 1), 1000)])"
proof -
  let ?evs = "[Fly None 1 True, Timer 1 True, Frame True, Timer 1 False]"
  let ?s = "useTreeAnimation_startRandomFlight True (Some ''yellow'') 1 sketch0"
  have i: "intervals ?s = [(1, (Some ''yellow'', 1), 1000)]"
    by (simp add: useTreeAnimation_startRandomFlight_def startRandomFlight_state
        controller_inv_sketch0) (simp add: sketch0_def)
  have ns: "no_start ?evs" by (simp add: no_start_def)
  have he: "\<forall>e\<in>set ?evs. hook_event e" by simp
  from C10_campaign_not_stoppable_from_hook [of "Some ''yellow''" 1 ?s True monitor_init rnd0 ?evs]
    unit_draws_0
  obtain s' where r: "run rnd0 ?evs ?s = Inr s'" by blast
  from C10_campaign_not_stoppable_from_hook
    [of "Some ''yellow''" 1 ?s True monitor_init rnd0 ?evs s' 1] he r ns i
  have "intervals s' = [(1, (Some ''yellow'', 1), 1000)]" by blast
  moreover have "list_all hook_event ?evs" by simp
  ultimately show ?thesis using r ns unit_draws_0 by blast
qed

end
